theory Spec2Isabelle
  imports Complex_Main "HOL-Library.Word" "HOL-Library.Multiset"
    "HOL-Library.List_Lexorder" "HOL-Library.Product_Lexorder" "HOL-Library.Log_Nat"
begin

section \<open>Common data: bytes, strings, exceptions\<close>

text \<open>
  A Python \<open>bytes\<close> object is a list of 8-bit words. A Python \<open>str\<close> is a list
  of Unicode code points. Every exception the modelled code can raise is a constructor
  of \<open>error\<close>; a function that can raise returns \<open>error + 'a\<close> with \<open>Inl\<close> the
  exception.

  \<^item> \<open>BadMagic\<close>, \<open>MessageTooLarge\<close>, \<open>BadChecksum\<close> are the three
    \<open>ProtocolError\<close>s of \<open>Peer.next_message\<close> (told apart by their message);
  \<^item> \<open>UnexpectedEof\<close> is the \<open>IncompleteReadError\<close> (an \<open>EOFError\<close>) of
    \<open>StreamReader.readexactly\<close>;
  \<^item> \<open>UnicodeDecodeError\<close>, \<open>UnicodeEncodeError\<close>, \<open>StructError\<close>,
    \<open>TypeError\<close>, \<open>ZeroDivisionError\<close>, \<open>OverflowError\<close>, \<open>AttributeError\<close>,
    \<open>ValueError\<close> are the Python built-in exceptions of those names;
  \<^item> \<open>CollaboratorError\<close> is whatever an injected function (the payload encoder or
    decoder, the peer's send) raises.
\<close>

type_synonym byte = "8 word"
type_synonym bytes = "byte list"
type_synonym pystr = "nat list"

datatype error =
    BadMagic
  | MessageTooLarge
  | BadChecksum
  | UnexpectedEof
  | UnicodeDecodeError
  | UnicodeEncodeError
  | StructError
  | TypeError
  | ZeroDivisionError
  | OverflowError
  | AttributeError
  | ValueError
  | CollaboratorError string

section \<open>Peer.py: the framed transport\<close>

subsection \<open>Library functions used by the transport\<close>

text \<open>\<open>bs[i:j]\<close> for \<open>0 \<le> i \<le> j\<close>.\<close>

definition pyslice :: "nat \<Rightarrow> nat \<Rightarrow> 'a list \<Rightarrow> 'a list" where
  "pyslice i j xs = take (j - i) (drop i xs)"

text \<open>
  \<open>str.encode("utf8")\<close>: one to four bytes per code point; a surrogate
  (\<open>U+D800..U+DFFF\<close>) raises \<open>UnicodeEncodeError\<close>.
\<close>

definition utf8_encode1 :: "nat \<Rightarrow> bytes option" where
  "utf8_encode1 cp =
     (if cp < 0x80 then Some [of_nat cp]
      else if cp < 0x800 then Some [of_nat (0xC0 + cp div 64), of_nat (0x80 + cp mod 64)]
      else if cp < 0x10000 then
        (if 0xD800 \<le> cp \<and> cp < 0xE000 then None
         else Some [of_nat (0xE0 + cp div 4096), of_nat (0x80 + (cp div 64) mod 64),
                    of_nat (0x80 + cp mod 64)])
      else if cp < 0x110000 then
        Some [of_nat (0xF0 + cp div 262144), of_nat (0x80 + (cp div 4096) mod 64),
              of_nat (0x80 + (cp div 64) mod 64), of_nat (0x80 + cp mod 64)]
      else None)"

fun utf8_encode :: "pystr \<Rightarrow> error + bytes" where
  "utf8_encode [] = Inr []"
| "utf8_encode (cp # cps) =
     (case utf8_encode1 cp of
        None \<Rightarrow> Inl UnicodeEncodeError
      | Some bs \<Rightarrow> (case utf8_encode cps of Inl e \<Rightarrow> Inl e | Inr r \<Rightarrow> Inr (bs @ r)))"

text \<open>
  \<open>bytes.decode("utf8")\<close> (strict): the well-formed byte sequences of the Unicode
  standard; anything else raises \<open>UnicodeDecodeError\<close>. \<open>utf8_first\<close> reads the first
  code point of a non-empty byte string and returns it with the bytes that follow.
\<close>

definition cont :: "byte \<Rightarrow> bool" where
  "cont b = (0x80 \<le> unat b \<and> unat b \<le> 0xBF)"

fun utf8_first :: "bytes \<Rightarrow> (nat \<times> bytes) option" where
  "utf8_first [] = None"
| "utf8_first (b0 # bs) =
     (let n0 = unat b0 in
      if n0 < 0x80 then Some (n0, bs)
      else if n0 < 0xC2 then None
      else if n0 < 0xE0 then
        (case bs of
           b1 # r \<Rightarrow>
             if cont b1 then Some ((n0 - 0xC0) * 64 + (unat b1 - 0x80), r) else None
         | _ \<Rightarrow> None)
      else if n0 < 0xF0 then
        (case bs of
           b1 # b2 # r \<Rightarrow>
             if (if n0 = 0xE0 then 0xA0 \<le> unat b1 \<and> unat b1 \<le> 0xBF
                 else if n0 = 0xED then 0x80 \<le> unat b1 \<and> unat b1 \<le> 0x9F
                 else cont b1) \<and> cont b2
             then Some ((n0 - 0xE0) * 4096 + (unat b1 - 0x80) * 64 + (unat b2 - 0x80), r)
             else None
         | _ \<Rightarrow> None)
      else if n0 < 0xF5 then
        (case bs of
           b1 # b2 # b3 # r \<Rightarrow>
             if (if n0 = 0xF0 then 0x90 \<le> unat b1 \<and> unat b1 \<le> 0xBF
                 else if n0 = 0xF4 then 0x80 \<le> unat b1 \<and> unat b1 \<le> 0x8F
                 else cont b1) \<and> cont b2 \<and> cont b3
             then Some ((n0 - 0xF0) * 262144 + (unat b1 - 0x80) * 4096
                        + (unat b2 - 0x80) * 64 + (unat b3 - 0x80), r)
             else None
         | _ \<Rightarrow> None)
      else None)"

lemma utf8_first_shorter: "utf8_first bs = Some (c, r) \<Longrightarrow> length r < length bs"
  by (cases bs) (auto simp: Let_def split: if_splits list.splits)

function utf8_decode :: "bytes \<Rightarrow> error + pystr" where
  "utf8_decode bs =
     (if bs = [] then Inr []
      else case utf8_first bs of
        None \<Rightarrow> Inl UnicodeDecodeError
      | Some (c, r) \<Rightarrow> (case utf8_decode r of Inl e \<Rightarrow> Inl e | Inr cs \<Rightarrow> Inr (c # cs)))"
  by pat_completeness auto
termination
  by (relation "measure length") (auto dest: utf8_first_shorter)

declare utf8_decode.simps [simp del]

text \<open>
  \<open>struct.pack("<L", n)\<close>: four bytes, least significant first; \<open>struct.error\<close> when
  \<open>n\<close> does not fit 32 bits. \<open>int.from_bytes(bs, byteorder="little")\<close>.
\<close>

definition pack_u32_le :: "nat \<Rightarrow> error + bytes" where
  "pack_u32_le n =
     (if n < 2 ^ 32
      then Inr [of_nat n, of_nat (n div 256), of_nat (n div 65536), of_nat (n div 16777216)]
      else Inl StructError)"

fun int_from_bytes_le :: "bytes \<Rightarrow> nat" where
  "int_from_bytes_le [] = 0"
| "int_from_bytes_le (b # bs) = unat b + 256 * int_from_bytes_le bs"

subsection \<open>The Peer object\<close>

text \<open>
  \<open>reader\<close> holds the bytes the stream will still deliver before end of file;
  \<open>writer\<close> holds every byte written so far. The payload encoder and decoder are
  the injected \<open>pack_from_data_f\<close> and \<open>parse_from_data_f\<close>; \<open>'k\<close> is the type of
  the keyword arguments of a message, \<open>'d\<close> the type of a parsed message.
  \<open>encoding.double_sha256\<close> (of the pycoin library) is the parameter \<open>H\<close> of
  \<open>send_msg\<close> and \<open>next_message\<close>.
\<close>

record ('d, 'k) peer =
  reader :: bytes
  writer :: bytes
  magic_header :: bytes
  parse_from_data :: "pystr \<Rightarrow> bytes \<Rightarrow> error + 'd"
  pack_from_data :: "pystr \<Rightarrow> 'k \<Rightarrow> error + bytes"
  max_msg_size :: int
  bytes_read :: nat
  bytes_writ :: nat

definition DEFAULT_MAX_MSG_SIZE :: int where
  "DEFAULT_MAX_MSG_SIZE = 2 * 1024 * 1024"

datatype 'd message_data = Raw bytes | Parsed 'd

definition send_msg ::
  "(bytes \<Rightarrow> bytes) \<Rightarrow> ('d, 'k) peer \<Rightarrow> pystr \<Rightarrow> 'k \<Rightarrow> error + ('d, 'k) peer" where
  "send_msg H p message_name kwargs =
     (case pack_from_data p message_name kwargs of
        Inl e \<Rightarrow> Inl e
      | Inr message_data \<Rightarrow>
     (case utf8_encode message_name of
        Inl e \<Rightarrow> Inl e
      | Inr message_type \<Rightarrow>
     (let message_type_padded = take 12 (message_type @ replicate 12 0) in
      case pack_u32_le (length message_data) of
        Inl e \<Rightarrow> Inl e
      | Inr message_size \<Rightarrow>
     (let message_checksum = take 4 (H message_data);
          packet = concat [magic_header p, message_type_padded, message_size,
                           message_checksum, message_data]
      in Inr (p\<lparr>bytes_writ := bytes_writ p + length packet,
                writer := writer p @ packet\<rparr>)))))"

text \<open>
  \<open>StreamReader.readexactly(n)\<close>: the next \<open>n\<close> bytes, or \<open>IncompleteReadError\<close>
  when the stream ends first (the reader's buffer is then emptied).
\<close>

definition readexactly ::
  "nat \<Rightarrow> ('d, 'k) peer \<Rightarrow> (error + bytes) \<times> ('d, 'k) peer" where
  "readexactly n p =
     (if n \<le> length (reader p)
      then (Inr (take n (reader p)), p\<lparr>reader := drop n (reader p)\<rparr>)
      else (Inl UnexpectedEof, p\<lparr>reader := []\<rparr>))"

definition next_message ::
  "(bytes \<Rightarrow> bytes) \<Rightarrow> ('d, 'k) peer \<Rightarrow> bool
     \<Rightarrow> (error + pystr \<times> 'd message_data) \<times> ('d, 'k) peer" where
  "next_message H p unpack_to_dict =
     (let header_size = length (magic_header p) in
      case readexactly header_size p of
        (Inl e, p1) \<Rightarrow> (Inl e, p1)
      | (Inr blob, p1) \<Rightarrow>
     (let p2 = p1\<lparr>bytes_read := bytes_read p1 + header_size\<rparr> in
      if blob \<noteq> magic_header p2 then (Inl BadMagic, p2)
      else case readexactly 20 p2 of
        (Inl e, p3) \<Rightarrow> (Inl e, p3)
      | (Inr message_size_hash_bytes, p3) \<Rightarrow>
     (let p4 = p3\<lparr>bytes_read := bytes_read p3 + 20\<rparr>;
          message_name_bytes = pyslice 0 12 message_size_hash_bytes
      in case utf8_decode (filter (\<lambda>b. b \<noteq> 0) message_name_bytes) of
        Inl e \<Rightarrow> (Inl e, p4)
      | Inr message_name \<Rightarrow>
     (let size_bytes = pyslice 12 16 message_size_hash_bytes;
          size = int_from_bytes_le size_bytes
      in if int size > max_msg_size p4 then (Inl MessageTooLarge, p4)
      else
     (let transmitted_hash = pyslice 16 20 message_size_hash_bytes in
      case readexactly size p4 of
        (Inl e, p5) \<Rightarrow> (Inl e, p5)
      | (Inr message_data, p5) \<Rightarrow>
     (let p6 = p5\<lparr>bytes_read := bytes_read p5 + size\<rparr>;
          actual_hash = take 4 (H message_data)
      in if actual_hash \<noteq> transmitted_hash then (Inl BadChecksum, p6)
      else if unpack_to_dict then
        (case parse_from_data p6 message_name message_data of
           Inl e \<Rightarrow> (Inl e, p6)
         | Inr d \<Rightarrow> (Inr (message_name, Parsed d), p6))
      else (Inr (message_name, Raw message_data), p6)))))))"

subsection \<open>Properties of the transport\<close>



lemma le_arith: "n mod 256 + (256 * (n div 256 mod 256) + (65536 * (n div 65536 mod 256) + 16777216 * (n div 16777216))) = (n::nat)"
proof -
  define a where "a = n div 256"
  define b where "b = a div 256"
  define c where "c = b div 256"
  have e1: "n div 65536 = b" unfolding b_def a_def by (simp add: div_mult2_eq)
  have e2: "n div 16777216 = c" unfolding c_def b_def a_def by (simp add: div_mult2_eq)
  have n: "n = n mod 256 + 256 * a" unfolding a_def by simp
  have a: "a = a mod 256 + 256 * b" unfolding b_def by simp
  have b: "b = b mod 256 + 256 * c" unfolding c_def by simp
  have "n mod 256 + (256 * (a mod 256) + (65536 * (b mod 256) + 16777216 * c)) = n"
    using n a b by linarith
  then show ?thesis using e1 e2 a_def by simp
qed

lemma u32_roundtrip: "pack_u32_le n = Inr bs \<Longrightarrow> int_from_bytes_le bs = n \<and> length bs = 4"
  by (auto simp: pack_u32_le_def unat_of_nat le_arith split: if_splits)

lemma utf8_decode_Nil: "utf8_decode [] = Inr []"
  by (simp add: utf8_decode.simps)

lemma utf8_ascii: "\<forall>x\<in>set c. x < 128 \<Longrightarrow> utf8_encode c = Inr (map of_nat c) \<and> utf8_decode (map of_nat c) = Inr c"
  apply (induction c)
   apply (simp add: utf8_decode_Nil)
  apply (subst utf8_decode.simps)
  apply (auto simp: utf8_encode1_def unat_of_nat)
  done

lemma ascii_no_nul: "\<forall>x\<in>set c. 0 < x \<and> x < 128 \<Longrightarrow> filter (\<lambda>b. b \<noteq> 0) (map of_nat c :: bytes) = map of_nat c"
proof (induction c)
  case Nil then show ?case by simp
next
  case (Cons x c)
  then have "unat (of_nat x :: byte) = x" by (simp add: unat_of_nat)
  with Cons.prems have "(of_nat x :: byte) \<noteq> 0" by (metis less_numeral_extra(3) unat_0 list.set_intros(1))
  with Cons show ?case by simp
qed

lemma next_message_frame:
  assumes "length nm = 12" "length sb = 4" "length ck = 4"
    and "utf8_decode (filter (\<lambda>b. b \<noteq> 0) nm) = Inr name"
    and "int (length pl) \<le> max_msg_size q" "int_from_bytes_le sb = length pl"
    and "take 4 (H pl) = ck"
  shows "next_message H (q\<lparr>reader := magic_header q @ nm @ sb @ ck @ pl @ rest\<rparr>) False =
           (Inr (name, Raw pl),
            q\<lparr>reader := rest, bytes_read := bytes_read q + (length (magic_header q) + 20 + length pl)\<rparr>)"
  using assms
  by (simp add: next_message_def readexactly_def Let_def pyslice_def)



lemma next_message_outcome:
  "fst (next_message H p u) =
     (let s = reader p; m = magic_header p; k = length m;
          hdr = take 20 (drop k s);
          sz = int_from_bytes_le (pyslice 12 16 hdr);
          body = take sz (drop (k + 20) s)
      in if length s < k then Inl UnexpectedEof
         else if take k s \<noteq> m then Inl BadMagic
         else if length s < k + 20 then Inl UnexpectedEof
         else case utf8_decode (filter (\<lambda>b. b \<noteq> 0) (pyslice 0 12 hdr)) of
           Inl e \<Rightarrow> Inl e
         | Inr name \<Rightarrow>
             if int sz > max_msg_size p then Inl MessageTooLarge
             else if length s < k + 20 + sz then Inl UnexpectedEof
             else if take 4 (H body) \<noteq> pyslice 16 20 hdr then Inl BadChecksum
             else if u then
               (case parse_from_data p name body of
                  Inl e \<Rightarrow> Inl e
                | Inr d \<Rightarrow> Inr (name, Parsed d))
             else Inr (name, Raw body))"
proof -
  let ?s = "reader p" and ?m = "magic_header p"
  let ?k = "length ?m"
  let ?hdr = "take 20 (drop ?k ?s)"
  let ?sz = "int_from_bytes_le (pyslice 12 16 ?hdr)"
  let ?body = "take ?sz (drop (?k + 20) ?s)"
  show ?thesis
  proof (cases "length ?s < ?k")
    case True
    then show ?thesis by (simp add: next_message_def readexactly_def)
  next
    case c1: False
    show ?thesis
    proof (cases "take ?k ?s \<noteq> ?m")
      case True
      with c1 show ?thesis by (simp add: next_message_def readexactly_def Let_def)
    next
      case c2: False
      show ?thesis
      proof (cases "length ?s < ?k + 20")
        case True
        then have "\<not> 20 \<le> length ?s - ?k" by arith
        with True c1 c2 show ?thesis
          by (simp add: next_message_def readexactly_def Let_def)
      next
        case c3': False
        then have c3: "20 \<le> length ?s - ?k" by arith
        show ?thesis
        proof (cases "utf8_decode (filter (\<lambda>b. b \<noteq> 0) (pyslice 0 12 ?hdr))")
          case (Inl e)
          with c1 c2 c3 c3' show ?thesis
            by (simp add: next_message_def readexactly_def Let_def)
        next
          case (Inr name)
          show ?thesis
          proof (cases "int ?sz > max_msg_size p")
            case True
            with c1 c2 c3 c3' Inr show ?thesis
              by (simp add: next_message_def readexactly_def Let_def)
          next
            case c5: False
            show ?thesis
            proof (cases "length ?s < ?k + 20 + ?sz")
              case True
              with c3' have "\<not> ?sz \<le> length ?s - (?k + 20)" by arith
              with True c1 c2 c3 c3' Inr c5 show ?thesis
                by (simp add: next_message_def readexactly_def Let_def add.commute)
            next
              case c6': False
              with c3' have c6: "?sz \<le> length ?s - (?k + 20)" by arith
              with c1 c2 c3 c3' c6 c6' Inr c5 show ?thesis
                by (simp add: next_message_def readexactly_def Let_def add.commute
                         split: sum.splits)
            qed
          qed
        qed
      qed
    qed
  qed
qed


subsection \<open>Concrete peers and frames\<close>

text \<open>
  \<open>ex_H\<close> stands for \<open>double_sha256\<close> in the examples, all of which hash the empty
  payload only: its first four bytes are those of \<open>double_sha256(b"")\<close>, the checksum
  \<open>5DF6E0E2\<close> of every Bitcoin message without payload.
\<close>

definition ex_H :: "bytes \<Rightarrow> bytes" where
  "ex_H bs = [0x5D, 0xF6, 0xE0, 0xE2, 0, 0, 0, 0, 0, 0, 0, 0, 0, 0, 0, 0, 0, 0, 0, 0,
            0, 0, 0, 0, 0, 0, 0, 0, 0, 0, 0, 0]"

definition ex_magic :: bytes where
  "ex_magic = [0xF9, 0xBE, 0xB4, 0xD9]"

definition ex_peer :: "bytes \<Rightarrow> (unit, bytes) peer" where
  "ex_peer s = \<lparr>reader = s, writer = [], magic_header = ex_magic,
     parse_from_data = (\<lambda>n d. Inr ()), pack_from_data = (\<lambda>n kw. Inr kw),
     max_msg_size = DEFAULT_MAX_MSG_SIZE, bytes_read = 0, bytes_writ = 0\<rparr>"

text \<open>
  Claim C1 (framing round trip), as amended. For a command name \<open>c\<close> of at most 12
  ASCII characters none of which is NUL, and a payload \<open>pl\<close> with
  \<open>len(pl) \<le> max_msg_size\<close> and \<open>len(pl) < 2^32\<close>: \<open>send_msg\<close> writes one frame of
  \<open>len(magic) + 20 + len(pl)\<close> bytes, and \<open>next_message\<close> (with \<open>unpack_to_dict\<close> false
  and the same magic) on a stream that starts with that frame returns \<open>(c, pl)\<close>,
  consumes exactly the frame and adds its length to \<open>bytes_read\<close>.
\<close>

theorem framing_round_trip:
  assumes pk: "pack_from_data p c kwargs = Inr pl"
    and ascii: "\<forall>x\<in>set c. 0 < x \<and> x < 128"
    and len: "length c \<le> 12"
    and sz: "int (length pl) \<le> max_msg_size q" "length pl < 2 ^ 32"
    and H: "4 \<le> length (H pl)"
    and mg: "magic_header q = magic_header p"
  shows "\<exists>frame. send_msg H p c kwargs =
             Inr (p\<lparr>bytes_writ := bytes_writ p + length frame, writer := writer p @ frame\<rparr>)
           \<and> length frame = length (magic_header p) + 20 + length pl
           \<and> next_message H (q\<lparr>reader := frame @ rest\<rparr>) False =
               (Inr (c, Raw pl),
                q\<lparr>reader := rest, bytes_read := bytes_read q + length frame\<rparr>)"
proof -
  let ?nm = "map of_nat c @ replicate (12 - length c) (0::byte)"
  obtain sb where sb: "pack_u32_le (length pl) = Inr sb"
    using sz(2) by (simp add: pack_u32_le_def)
  then have sb': "int_from_bytes_le sb = length pl" "length sb = 4"
    using u32_roundtrip by blast+
  let ?ck = "take 4 (H pl)"
  let ?frame = "magic_header p @ ?nm @ sb @ ?ck @ pl"
  have asc: "\<forall>x\<in>set c. x < 128" using ascii by simp
  have enc: "utf8_encode c = Inr (map of_nat c)" using utf8_ascii[OF asc] by simp
  have pad: "take 12 (map of_nat c @ replicate 12 (0::byte)) = ?nm"
    using len by simp
  have send: "send_msg H p c kwargs =
      Inr (p\<lparr>bytes_writ := bytes_writ p + length ?frame, writer := writer p @ ?frame\<rparr>)"
    using pk sb enc pad by (simp add: send_msg_def del: take_append)
  have lnm: "length ?nm = 12" using len by simp
  have lck: "length ?ck = 4" using H by simp
  have dec: "utf8_decode (filter (\<lambda>b. b \<noteq> 0) ?nm) = Inr c"
    using ascii_no_nul[OF ascii] utf8_ascii[OF asc] by simp
  have lf: "length ?frame = length (magic_header p) + 20 + length pl"
    using lnm lck sb' by simp
  have "next_message H (q\<lparr>reader := magic_header q @ ?nm @ sb @ ?ck @ pl @ rest\<rparr>) False =
           (Inr (c, Raw pl),
            q\<lparr>reader := rest, bytes_read := bytes_read q + (length (magic_header q) + 20 + length pl)\<rparr>)"
    using lnm sb' lck dec sz(1)
    by (intro next_message_frame) simp_all
  then have "next_message H (q\<lparr>reader := ?frame @ rest\<rparr>) False =
               (Inr (c, Raw pl),
                q\<lparr>reader := rest, bytes_read := bytes_read q + length ?frame\<rparr>)"
    using mg lf by simp
  with send lf show ?thesis by blast
qed

definition ex_verack :: pystr where
  "ex_verack = [118, 101, 114, 97, 99, 107]"

definition ex_verack_frame :: bytes where
  "ex_verack_frame = ex_magic @ [118, 101, 114, 97, 99, 107, 0, 0, 0, 0, 0, 0]
      @ [0, 0, 0, 0] @ [0x5D, 0xF6, 0xE0, 0xE2]"

lemma replicate_numeral: "replicate (numeral k) x = x # replicate (pred_numeral k) x"
  by (simp add: numeral_eq_Suc)

theorem framing_round_trip_witness:
  "send_msg ex_H (ex_peer []) ex_verack [] =
     Inr ((ex_peer [])\<lparr>bytes_writ := 24, writer := ex_verack_frame\<rparr>)
   \<and> next_message ex_H (ex_peer ex_verack_frame) False =
       (Inr (ex_verack, Raw []), (ex_peer [])\<lparr>bytes_read := 24\<rparr>)"
proof -
  have h1: "pack_from_data (ex_peer []) ex_verack [] = Inr []"
    by (simp add: ex_peer_def)
  have h2: "\<forall>x\<in>set ex_verack. 0 < x \<and> x < 128"
    by (simp add: ex_verack_def)
  have h3: "length ex_verack \<le> 12" by (simp add: ex_verack_def)
  have h4: "int (length ([]::bytes)) \<le> max_msg_size (ex_peer [])"
    by (simp add: ex_peer_def DEFAULT_MAX_MSG_SIZE_def)
  have h5: "length ([]::bytes) < 2 ^ 32" by simp
  have h6: "4 \<le> length (ex_H [])" by (simp add: ex_H_def)
  obtain frame where
    f1: "send_msg ex_H (ex_peer []) ex_verack [] =
           Inr ((ex_peer [])\<lparr>bytes_writ := bytes_writ (ex_peer []) + length frame,
                              writer := writer (ex_peer []) @ frame\<rparr>)"
    and f2: "next_message ex_H ((ex_peer [])\<lparr>reader := frame @ []\<rparr>) False =
           (Inr (ex_verack, Raw []),
            (ex_peer [])\<lparr>reader := [], bytes_read := bytes_read (ex_peer []) + length frame\<rparr>)"
    using framing_round_trip [where p = "ex_peer []" and q = "ex_peer []" and c = ex_verack
        and kwargs = "[]" and pl = "[]" and H = ex_H and rest = "[]", OF h1 h2 h3 h4 h5 h6 refl]
    by blast
  have s: "send_msg ex_H (ex_peer []) ex_verack [] =
     Inr ((ex_peer [])\<lparr>bytes_writ := 24, writer := ex_verack_frame\<rparr>)"
    by (simp add: send_msg_def pack_u32_le_def utf8_encode1_def ex_verack_frame_def
          ex_magic_def ex_peer_def ex_verack_def ex_H_def replicate_numeral)
  from f1 s have fr: "frame = ex_verack_frame"
    by (simp add: ex_peer_def)
  have e: "(ex_peer [])\<lparr>reader := ex_verack_frame\<rparr> = ex_peer ex_verack_frame"
    by (simp add: ex_peer_def)
  have l: "length ex_verack_frame = 24" by (simp add: ex_verack_frame_def ex_magic_def)
  from f2 fr e l have "next_message ex_H (ex_peer ex_verack_frame) False =
       (Inr (ex_verack, Raw []), (ex_peer [])\<lparr>bytes_read := 24\<rparr>)"
    by (simp add: ex_peer_def)
  with s show ?thesis by simp
qed

definition ex_nul_frame :: bytes where
  "ex_nul_frame = ex_magic @ [0, 0, 0, 0, 0, 0, 0, 0, 0, 0, 0, 0]
      @ [0, 0, 0, 0] @ [0x5D, 0xF6, 0xE0, 0xE2]"

text \<open>
  The claim as stated fails for a command name that holds a NUL character: \<open>send_msg\<close>
  pads with NUL bytes and \<open>next_message\<close> deletes every NUL byte of the command field,
  so the name \<open>"\\0"\<close> comes back as the empty string.
\<close>

theorem framing_round_trip_counterexample:
  "(0::nat) < 128 \<and> length [0::nat] \<le> 12
   \<and> int (length ([]::bytes)) \<le> max_msg_size (ex_peer ex_nul_frame)
   \<and> send_msg ex_H (ex_peer []) [0] [] =
       Inr ((ex_peer [])\<lparr>bytes_writ := 24, writer := ex_nul_frame\<rparr>)
   \<and> fst (next_message ex_H (ex_peer ex_nul_frame) False) = Inr ([], Raw [])
   \<and> fst (next_message ex_H (ex_peer ex_nul_frame) False) \<noteq> Inr ([0], Raw [])"
  by (simp add: ex_peer_def ex_H_def ex_magic_def DEFAULT_MAX_MSG_SIZE_def ex_nul_frame_def
        send_msg_def pack_u32_le_def utf8_encode1_def
        next_message_def readexactly_def pyslice_def utf8_decode_Nil replicate_numeral)


lemma next_message_too_large_state:
  assumes "length (magic_header p) + 20 \<le> length (reader p)"
    and "take (length (magic_header p)) (reader p) = magic_header p"
    and "utf8_decode (filter (\<lambda>b. b \<noteq> 0)
           (pyslice 0 12 (take 20 (drop (length (magic_header p)) (reader p))))) = Inr name"
    and "int (int_from_bytes_le
           (pyslice 12 16 (take 20 (drop (length (magic_header p)) (reader p)))))
         > max_msg_size p"
  shows "next_message H p u =
           (Inl MessageTooLarge,
            p\<lparr>reader := drop (length (magic_header p) + 20) (reader p),
               bytes_read := bytes_read p + (length (magic_header p) + 20)\<rparr>)"
proof -
  have a: "length (magic_header p) \<le> length (reader p)"
    and b: "20 \<le> length (reader p) - length (magic_header p)"
    using assms(1) by arith+
  show ?thesis using assms a b
    by (simp add: next_message_def readexactly_def Let_def add.commute)
qed

text \<open>
  Claim C3 (when \<open>next_message\<close> raises), as amended. With \<open>k = len(magic)\<close>, the
  outcome is decided in this order: a short read of the magic (\<open>UnexpectedEof\<close>), a
  wrong magic (\<open>BadMagic\<close>), a short read of the 20 header bytes (\<open>UnexpectedEof\<close>), a
  command field that is not UTF-8 once its NUL bytes are removed
  (\<open>UnicodeDecodeError\<close>), a declared length above \<open>max_msg_size\<close>
  (\<open>MessageTooLarge\<close>), a short read of the payload (\<open>UnexpectedEof\<close>), a checksum
  mismatch (\<open>BadChecksum\<close>), and, when \<open>unpack_to_dict\<close> is set, whatever the
  injected decoder raises; in every other case it returns the command name with the
  raw or parsed payload. \<open>MessageTooLarge\<close> is raised with exactly the \<open>k + 20\<close>
  header bytes consumed (24 for a four-byte magic) and no payload byte read.
\<close>

theorem next_message_raises_iff:
  "(let s = reader p; m = magic_header p; k = length m;
        hdr = take 20 (drop k s);
        nm = utf8_decode (filter (\<lambda>b. b \<noteq> 0) (pyslice 0 12 hdr));
        sz = int_from_bytes_le (pyslice 12 16 hdr);
        body = take sz (drop (k + 20) s)
    in (fst (next_message H p u) =
         (if length s < k then Inl UnexpectedEof
          else if take k s \<noteq> m then Inl BadMagic
          else if length s < k + 20 then Inl UnexpectedEof
          else case nm of
            Inl e \<Rightarrow> Inl e
          | Inr name \<Rightarrow>
              if int sz > max_msg_size p then Inl MessageTooLarge
              else if length s < k + 20 + sz then Inl UnexpectedEof
              else if take 4 (H body) \<noteq> pyslice 16 20 hdr then Inl BadChecksum
              else if u then
                (case parse_from_data p name body of
                   Inl e \<Rightarrow> Inl e
                 | Inr d \<Rightarrow> Inr (name, Parsed d))
              else Inr (name, Raw body)))
     \<and> (isl (fst (next_message H p u)) \<longleftrightarrow>
          length s < k \<or> take k s \<noteq> m \<or> length s < k + 20 \<or> isl nm
          \<or> int sz > max_msg_size p \<or> length s < k + 20 + sz
          \<or> take 4 (H body) \<noteq> pyslice 16 20 hdr
          \<or> (u \<and> isl (parse_from_data p (projr nm) body)))
     \<and> (k + 20 \<le> length s \<and> take k s = m \<and> \<not> isl nm \<and> int sz > max_msg_size p \<longrightarrow>
          snd (next_message H p u) =
            p\<lparr>reader := drop (k + 20) s, bytes_read := bytes_read p + (k + 20)\<rparr>))"
proof -
  let ?s = "reader p" and ?m = "magic_header p"
  let ?k = "length ?m"
  let ?hdr = "take 20 (drop ?k ?s)"
  let ?nm = "utf8_decode (filter (\<lambda>b. b \<noteq> 0) (pyslice 0 12 ?hdr))"
  let ?sz = "int_from_bytes_le (pyslice 12 16 ?hdr)"
  let ?body = "take ?sz (drop (?k + 20) ?s)"
  note o = next_message_outcome [of H p u, unfolded Let_def]
  have c1: "fst (next_message H p u) =
         (if length ?s < ?k then Inl UnexpectedEof
          else if take ?k ?s \<noteq> ?m then Inl BadMagic
          else if length ?s < ?k + 20 then Inl UnexpectedEof
          else case ?nm of
            Inl e \<Rightarrow> Inl e
          | Inr name \<Rightarrow>
              if int ?sz > max_msg_size p then Inl MessageTooLarge
              else if length ?s < ?k + 20 + ?sz then Inl UnexpectedEof
              else if take 4 (H ?body) \<noteq> pyslice 16 20 ?hdr then Inl BadChecksum
              else if u then
                (case parse_from_data p name ?body of
                   Inl e \<Rightarrow> Inl e
                 | Inr d \<Rightarrow> Inr (name, Parsed d))
              else Inr (name, Raw ?body))"
    by (rule o)
  have c2: "isl (fst (next_message H p u)) \<longleftrightarrow>
          length ?s < ?k \<or> take ?k ?s \<noteq> ?m \<or> length ?s < ?k + 20 \<or> isl ?nm
          \<or> int ?sz > max_msg_size p \<or> length ?s < ?k + 20 + ?sz
          \<or> take 4 (H ?body) \<noteq> pyslice 16 20 ?hdr
          \<or> (u \<and> isl (parse_from_data p (projr ?nm) ?body))"
    unfolding c1 by (cases ?nm; cases "parse_from_data p (projr ?nm) ?body") simp_all
  have c3: "?k + 20 \<le> length ?s \<and> take ?k ?s = ?m \<and> \<not> isl ?nm \<and> int ?sz > max_msg_size p \<longrightarrow>
          snd (next_message H p u) =
            p\<lparr>reader := drop (?k + 20) ?s, bytes_read := bytes_read p + (?k + 20)\<rparr>"
  proof (intro impI, elim conjE)
    assume h: "?k + 20 \<le> length ?s" "take ?k ?s = ?m" "\<not> isl ?nm" "int ?sz > max_msg_size p"
    from h(3) obtain name where "?nm = Inr name" by (cases ?nm) simp_all
    from next_message_too_large_state [OF h(1) h(2) this h(4), of H u]
    show "snd (next_message H p u) =
            p\<lparr>reader := drop (?k + 20) ?s, bytes_read := bytes_read p + (?k + 20)\<rparr>"
      by simp
  qed
  show ?thesis unfolding Let_def using c1 c2 c3 by blast
qed

definition ex_too_large_frame :: bytes where
  "ex_too_large_frame = ex_magic @ [118, 101, 114, 97, 99, 107, 0, 0, 0, 0, 0, 0]
      @ [1, 0, 32, 0] @ [0x5D, 0xF6, 0xE0, 0xE2] @ [1, 2, 3]"

theorem next_message_raises_iff_witness:
  "next_message ex_H (ex_peer ex_too_large_frame) True =
     (Inl MessageTooLarge, (ex_peer [1, 2, 3])\<lparr>bytes_read := 24\<rparr>)"
proof -
  have d: "utf8_decode [118, 101, 114, 97, 99, 107] = Inr ex_verack"
    by (simp add: utf8_decode.simps ex_verack_def)
  have f: "fst (next_message ex_H (ex_peer ex_too_large_frame) True) = Inl MessageTooLarge"
    and s: "snd (next_message ex_H (ex_peer ex_too_large_frame) True) =
              (ex_peer [1, 2, 3])\<lparr>bytes_read := 24\<rparr>"
    using next_message_raises_iff [of "ex_peer ex_too_large_frame" ex_H True]
    by (simp_all add: Let_def ex_peer_def ex_too_large_frame_def ex_magic_def pyslice_def d
          DEFAULT_MAX_MSG_SIZE_def)
  then show ?thesis by (simp add: prod_eq_iff)
qed

definition ex_bad_name_frame :: bytes where
  "ex_bad_name_frame = ex_magic @ [0xFF, 0, 0, 0, 0, 0, 0, 0, 0, 0, 0, 0]
      @ [0, 0, 0, 0] @ [0x5D, 0xF6, 0xE0, 0xE2]"

text \<open>
  The claim as stated fails on a frame whose magic, length and checksum are all right
  and whose command field starts with the byte \<open>0xFF\<close>: none of the four listed causes
  holds, and \<open>next_message\<close> raises \<open>UnicodeDecodeError\<close>.
\<close>

theorem next_message_raises_iff_counterexample:
  "fst (next_message ex_H (ex_peer ex_bad_name_frame) False) = Inl UnicodeDecodeError
   \<and> take (length (magic_header (ex_peer ex_bad_name_frame))) ex_bad_name_frame
       = magic_header (ex_peer ex_bad_name_frame)
   \<and> int (int_from_bytes_le (pyslice 16 20 ex_bad_name_frame))
       \<le> max_msg_size (ex_peer ex_bad_name_frame)
   \<and> length ex_bad_name_frame = 24 + int_from_bytes_le (pyslice 16 20 ex_bad_name_frame)
   \<and> take 4 (ex_H (drop 24 ex_bad_name_frame)) = pyslice 20 24 ex_bad_name_frame"
  by (simp add: ex_peer_def ex_H_def ex_magic_def DEFAULT_MAX_MSG_SIZE_def ex_bad_name_frame_def
        next_message_def readexactly_def pyslice_def utf8_decode.simps)



section \<open>Blockfetcher.py: the block fetcher\<close>

subsection \<open>Queue items and their order\<close>

text \<open>
  A future is a reference \<open>fid\<close> into the store of the fetcher; a peer is known by its
  identity. A queue item is the tuple \<open>(pri, bh, f, peers_tried)\<close> of the source; its
  last component is the set object created together with the future \<open>f\<close>, which the
  store keeps under the same reference, so an item is written \<open>(pri, bh, f)\<close>.

  \<open>item_lt\<close> is Python's \<open><\<close> on two such tuples: the first components that differ
  decide. Priorities are integers, hashes are \<open>bytes\<close> (compared lexicographically,
  bytes unsigned); two different futures cannot be ordered and raise \<open>TypeError\<close>; an
  item is not less than itself.
\<close>

type_synonym fid = nat
type_synonym peer_id = nat
type_synonym item = "int \<times> bytes \<times> fid"

definition item_lt :: "item \<Rightarrow> item \<Rightarrow> error + bool" where
  "item_lt a b =
     (case (a, b) of ((p1, h1, f1), (p2, h2, f2)) \<Rightarrow>
        if p1 \<noteq> p2 then Inr (p1 < p2)
        else if h1 \<noteq> h2 then Inr (h1 < h2)
        else if f1 \<noteq> f2 then Inl TypeError
        else Inr False)"

definition key :: "item \<Rightarrow> int \<times> bytes" where
  "key a = (fst a, fst (snd a))"

subsection \<open>heapq, as asyncio.PriorityQueue uses it\<close>

text \<open>
  \<open>heapq._siftdown(heap, startpos, pos)\<close>; \<open>newitem\<close> is \<open>heap[pos]\<close> on entry.
\<close>

function siftdown_loop :: "item list \<Rightarrow> nat \<Rightarrow> nat \<Rightarrow> item \<Rightarrow> error + item list" where
  "siftdown_loop heap startpos pos newitem =
     (if pos > startpos then
        (let parentpos = (pos - 1) div 2;
             parent = heap ! parentpos
         in case item_lt newitem parent of
              Inl e \<Rightarrow> Inl e
            | Inr True \<Rightarrow> siftdown_loop (heap[pos := parent]) startpos parentpos newitem
            | Inr False \<Rightarrow> Inr (heap[pos := newitem]))
      else Inr (heap[pos := newitem]))"
  by pat_completeness auto
termination
  by (relation "measure (\<lambda>(heap, startpos, pos, newitem). pos)") auto

declare siftdown_loop.simps [simp del]

definition siftdown :: "item list \<Rightarrow> nat \<Rightarrow> nat \<Rightarrow> error + item list" where
  "siftdown heap startpos pos = siftdown_loop heap startpos pos (heap ! pos)"

text \<open>
  The loop of \<open>heapq._siftup(heap, pos)\<close>: the smaller child moves up until \<open>pos\<close> is
  a leaf; it returns the heap and the leaf's position.
\<close>

function siftup_loop :: "item list \<Rightarrow> nat \<Rightarrow> error + item list \<times> nat" where
  "siftup_loop heap pos =
     (let endpos = length heap;
          childpos = 2 * pos + 1
      in if childpos < endpos then
           (let rightpos = childpos + 1
            in case (if rightpos < endpos
                     then (case item_lt (heap ! childpos) (heap ! rightpos) of
                             Inl e \<Rightarrow> Inl e
                           | Inr lt \<Rightarrow> Inr (if \<not> lt then rightpos else childpos))
                     else Inr childpos) of
                 Inl e \<Rightarrow> Inl e
               | Inr c \<Rightarrow> siftup_loop (heap[pos := heap ! c]) c)
         else Inr (heap, pos))"
  by pat_completeness auto
termination
  by (relation "measure (\<lambda>(heap, pos). length heap - pos)")
     (auto split: if_splits sum.splits)

declare siftup_loop.simps [simp del]

definition siftup :: "item list \<Rightarrow> nat \<Rightarrow> error + item list" where
  "siftup heap pos =
     (let newitem = heap ! pos
      in case siftup_loop heap pos of
           Inl e \<Rightarrow> Inl e
         | Inr (h, p) \<Rightarrow> siftdown (h[p := newitem]) pos p)"

definition heappush :: "item list \<Rightarrow> item \<Rightarrow> error + item list" where
  "heappush heap item = siftdown (heap @ [item]) 0 (length heap)"

text \<open>\<open>heappop\<close> is only called on a non-empty heap (\<open>Queue.get\<close> waits while it is empty).\<close>

definition heappop :: "item list \<Rightarrow> error + item \<times> item list" where
  "heappop heap =
     (let lastelt = last heap;
          h = butlast heap
      in if h \<noteq> [] then
           (case siftup (h[0 := lastelt]) 0 of
              Inl e \<Rightarrow> Inl e
            | Inr h' \<Rightarrow> Inr (h ! 0, h'))
         else Inr (lastelt, h))"

subsection \<open>Correctness of the heap operations\<close>


text \<open>
  The heap invariant of \<open>heapq\<close>, on the keys \<open>(pri, bh)\<close> of the items: no item
  is smaller than its parent. \<open>hole_inv\<close> and \<open>hole2\<close> are the loop invariants of
  \<open>_siftdown\<close> and \<open>_siftup\<close>; \<open>comparable\<close> says that any two items of a set can
  be ordered without comparing futures.
\<close>

definition heap_inv :: "item list \<Rightarrow> bool" where
  "heap_inv h = (\<forall>i<length h. 0 < i \<longrightarrow> key (h ! ((i - 1) div 2)) \<le> key (h ! i))"

definition hole_inv :: "item list \<Rightarrow> nat \<Rightarrow> item \<Rightarrow> bool" where
  "hole_inv h pos x =
     (pos < length h
      \<and> (\<forall>i<length h. 0 < i \<and> i \<noteq> pos \<longrightarrow>
            key ((h[pos := x]) ! ((i - 1) div 2)) \<le> key ((h[pos := x]) ! i))
      \<and> (\<forall>c<length h. 0 < pos \<and> 0 < c \<and> (c - 1) div 2 = pos \<longrightarrow>
            key (h ! ((pos - 1) div 2)) \<le> key (h ! c)))"

lemma parent_less: "0 < i \<Longrightarrow> (i - 1) div 2 < (i::nat)"
  by arith

lemma item_lt_Inr: "item_lt a b = Inr r \<Longrightarrow> r = (key a < key b)"
  by (cases a; cases b) (auto simp: item_lt_def key_def split: if_splits)

lemma item_lt_total: "key a \<noteq> key b \<or> a = b \<Longrightarrow> item_lt a b = Inr (key a < key b)"
  by (cases a; cases b) (auto simp: item_lt_def key_def)

lemma siftdown_loop_stop:
  "\<not> s < pos \<Longrightarrow> siftdown_loop h s pos x = Inr (h[pos := x])"
  by (subst siftdown_loop.simps) simp

lemma siftdown_loop_step:
  "s < pos \<Longrightarrow> siftdown_loop h s pos x =
     (case item_lt x (h ! ((pos - 1) div 2)) of
        Inl e \<Rightarrow> Inl e
      | Inr b \<Rightarrow> if b then siftdown_loop (h[pos := h ! ((pos - 1) div 2)]) s ((pos - 1) div 2) x
                 else Inr (h[pos := x]))"
  by (subst siftdown_loop.simps) (simp add: Let_def split: sum.splits bool.splits)

lemma siftdown_loop_cases [consumes 1, case_names stop place up]:
  assumes "siftdown_loop h s pos x = Inr h'"
  obtains "\<not> s < pos" "h' = h[pos := x]"
  | "s < pos" "item_lt x (h ! ((pos - 1) div 2)) = Inr False" "h' = h[pos := x]"
  | "s < pos" "item_lt x (h ! ((pos - 1) div 2)) = Inr True"
      "siftdown_loop (h[pos := h ! ((pos - 1) div 2)]) s ((pos - 1) div 2) x = Inr h'"
proof (cases "s < pos")
  case False
  with assms that(1) show ?thesis by (simp add: siftdown_loop_stop)
next
  case True
  with assms that(2,3) show ?thesis
    by (auto simp: siftdown_loop_step split: sum.splits if_splits)
qed

lemma siftdown_loop_mset:
  "siftdown_loop h s pos x = Inr h' \<Longrightarrow> pos < length h \<Longrightarrow> mset h' = mset (h[pos := x])"
proof (induction pos arbitrary: h rule: less_induct)
  case (less pos)
  from less.prems(1) show ?case
  proof (cases rule: siftdown_loop_cases)
    case stop then show ?thesis by simp
  next
    case place then show ?thesis by simp
  next
    case up
    let ?pp = "(pos - 1) div 2"
    from up(1) less.prems(2) have pp: "?pp < pos" "?pp < length h" by auto
    from less.IH[OF pp(1) up(3)] pp
    have "mset h' = mset (h[pos := h ! ?pp, ?pp := x])" by simp
    also have "\<dots> = mset (h[pos := x])"
      using pp less.prems(2) by (simp add: mset_update nth_list_update)
    finally show ?thesis .
  qed
qed

lemma siftdown_loop_heap:
  "siftdown_loop h 0 pos x = Inr h' \<Longrightarrow> hole_inv h pos x \<Longrightarrow> heap_inv h'"
proof (induction pos arbitrary: h rule: less_induct)
  case (less pos)
  from less.prems(1) show ?case
  proof (cases rule: siftdown_loop_cases)
    case stop
    with less.prems(2) show ?thesis
      by (auto simp: hole_inv_def heap_inv_def)
  next
    case place
    from item_lt_Inr[OF place(2)] have "key (h ! ((pos - 1) div 2)) \<le> key x" by simp
    with place less.prems(2) show ?thesis
      unfolding hole_inv_def heap_inv_def
      by (auto simp: nth_list_update)
  next
    case up
    let ?pp = "(pos - 1) div 2"
    from item_lt_Inr[OF up(2)] have lt: "key x < key (h ! ?pp)" by simp
    from up(1) less.prems(2) have pp: "?pp < pos" "pos < length h" by (auto simp: hole_inv_def)
    from less.prems(2) have E: "\<And>i. i < length h \<Longrightarrow> 0 < i \<Longrightarrow> i \<noteq> pos \<Longrightarrow>
            key ((h[pos := x]) ! ((i - 1) div 2)) \<le> key ((h[pos := x]) ! i)"
      and G: "\<And>c. c < length h \<Longrightarrow> 0 < c \<Longrightarrow> (c - 1) div 2 = pos \<Longrightarrow>
            key (h ! ?pp) \<le> key (h ! c)"
      using up(1) by (auto simp: hole_inv_def)
    have "hole_inv (h[pos := h ! ?pp]) ?pp x"
      unfolding hole_inv_def
    proof (intro conjI allI impI)
      show "?pp < length (h[pos := h ! ?pp])" using pp by simp
    next
      fix i assume i: "i < length (h[pos := h ! ?pp])" "0 < i \<and> i \<noteq> ?pp"
      then have il: "i < length h" by simp
      show "key (h[pos := h ! ?pp, ?pp := x] ! ((i - 1) div 2)) \<le> key (h[pos := h ! ?pp, ?pp := x] ! i)"
      proof (cases "i = pos")
        case True
        with pp lt show ?thesis by simp
      next
        case False
        have j: "(i - 1) div 2 < length h" using il by auto
        from E[OF il _ False] i(2) False have e: "key ((h[pos := x]) ! ((i - 1) div 2)) \<le> key (h ! i)"
          by simp
        show ?thesis
        proof (cases "(i - 1) div 2 = ?pp")
          case True
          with e pp have "key (h ! ?pp) \<le> key (h ! i)" by simp
          with lt True False i(2) pp il show ?thesis by simp
        next
          case np: False
          show ?thesis
          proof (cases "(i - 1) div 2 = pos")
            case True
            from G[OF il _ True] i(2) have "key (h ! ?pp) \<le> key (h ! i)" by simp
            with True False i(2) pp il np show ?thesis by simp
          next
            case False
            with e np i(2) \<open>i \<noteq> pos\<close> j il show ?thesis by simp
          qed
        qed
      qed
    next
      fix c assume c: "c < length (h[pos := h ! ?pp])" "0 < ?pp \<and> 0 < c \<and> (c - 1) div 2 = ?pp"
      then have cl: "c < length h" by simp
      from c(2) have "(?pp - 1) div 2 < ?pp" by (intro parent_less) simp
      with pp have ppp: "(?pp - 1) div 2 < ?pp" "(?pp - 1) div 2 \<noteq> pos" "?pp \<noteq> pos"
        "?pp < length h" by auto
      from E[OF ppp(4) _ ppp(3)] c(2) ppp have e1: "key (h ! ((?pp - 1) div 2)) \<le> key (h ! ?pp)"
        by simp
      show "key (h[pos := h ! ?pp] ! ((?pp - 1) div 2)) \<le> key (h[pos := h ! ?pp] ! c)"
      proof (cases "c = pos")
        case True
        with e1 ppp pp show ?thesis by simp
      next
        case False
        from E[OF cl _ False] c(2) ppp False have "key (h ! ?pp) \<le> key (h ! c)" by simp
        with e1 False ppp show ?thesis by simp
      qed
    qed
    from less.IH[OF pp(1) up(3) this] show ?thesis .
  qed
qed


lemma heappush_mset: "heappush h x = Inr h' \<Longrightarrow> mset h' = add_mset x (mset h)"
  unfolding heappush_def siftdown_def
  by (drule siftdown_loop_mset) simp_all



definition child_of :: "item list \<Rightarrow> nat \<Rightarrow> error + nat" where
  "child_of h pos =
     (if 2 * pos + 2 < length h
      then (case item_lt (h ! (2 * pos + 1)) (h ! (2 * pos + 2)) of
              Inl e \<Rightarrow> Inl e
            | Inr lt \<Rightarrow> Inr (if \<not> lt then 2 * pos + 2 else 2 * pos + 1))
      else Inr (2 * pos + 1))"

lemma siftup_loop_unfold:
  "siftup_loop h pos =
     (if 2 * pos + 1 < length h
      then (case child_of h pos of
              Inl e \<Rightarrow> Inl e
            | Inr c \<Rightarrow> siftup_loop (h[pos := h ! c]) c)
      else Inr (h, pos))"
  by (subst siftup_loop.simps)
     (auto simp: Let_def child_of_def split: sum.splits)

lemma child_of_props:
  assumes "child_of h pos = Inr c" "2 * pos + 1 < length h"
  shows "c < length h" "(c - 1) div 2 = pos" "pos < c" "0 < c"
    "\<And>d. d < length h \<Longrightarrow> 0 < d \<Longrightarrow> (d - 1) div 2 = pos \<Longrightarrow> key (h ! c) \<le> key (h ! d)"
proof -
  have cc: "c = 2 * pos + 1 \<or> (c = 2 * pos + 2 \<and> 2 * pos + 2 < length h)"
    using assms by (auto simp: child_of_def split: if_splits sum.splits)
  then show "c < length h" "(c - 1) div 2 = pos" "pos < c" "0 < c" using assms(2) by auto
  fix d assume d: "d < length h" "0 < d" "(d - 1) div 2 = pos"
  then have dd: "d = 2 * pos + 1 \<or> d = 2 * pos + 2" by arith
  show "key (h ! c) \<le> key (h ! d)"
  proof (cases "2 * pos + 2 < length h")
    case False
    with cc dd d show ?thesis by auto
  next
    case True
    with assms(1) obtain lt where lt: "item_lt (h ! (2 * pos + 1)) (h ! (2 * pos + 2)) = Inr lt"
      "c = (if \<not> lt then 2 * pos + 2 else 2 * pos + 1)"
      by (auto simp: child_of_def split: sum.splits)
    from item_lt_Inr[OF lt(1)] lt(2) dd show ?thesis by (cases lt) auto
  qed
qed

definition hole2 :: "item list \<Rightarrow> nat \<Rightarrow> bool" where
  "hole2 h pos =
     (pos < length h
      \<and> (\<forall>i<length h. 0 < i \<and> i \<noteq> pos \<and> (i - 1) div 2 \<noteq> pos \<longrightarrow>
            key (h ! ((i - 1) div 2)) \<le> key (h ! i))
      \<and> (\<forall>c<length h. 0 < pos \<and> 0 < c \<and> (c - 1) div 2 = pos \<longrightarrow>
            key (h ! ((pos - 1) div 2)) \<le> key (h ! c)))"

lemma siftup_loop_props:
  "siftup_loop h pos = Inr (h', p) \<Longrightarrow> pos < length h \<Longrightarrow>
     length h' = length h \<and> pos \<le> p \<and> p < length h \<and> \<not> 2 * p + 1 < length h
     \<and> mset (h'[p := x]) = mset (h[pos := x])
     \<and> (hole2 h pos \<longrightarrow> hole2 h' p)"
proof (induction "length h - pos" arbitrary: h pos rule: less_induct)
  case less
  show ?case
  proof (cases "2 * pos + 1 < length h")
    case False
    with less.prems show ?thesis by (subst (asm) siftup_loop_unfold) simp
  next
    case True
    with less.prems(1) obtain c where c: "child_of h pos = Inr c"
      and r: "siftup_loop (h[pos := h ! c]) c = Inr (h', p)"
      by (subst (asm) siftup_loop_unfold) (auto split: sum.splits)
    note cp = child_of_props[OF c True]
    let ?h1 = "h[pos := h ! c]"
    have m: "length ?h1 - c < length h - pos" using cp less.prems(2) by simp
    have cl: "c < length ?h1" using cp by simp
    from less.hyps[OF m r cl]
    have ih: "length h' = length h" "c \<le> p" "p < length h" "\<not> 2 * p + 1 < length h"
      "mset (h'[p := x]) = mset (?h1[c := x])" "hole2 ?h1 c \<longrightarrow> hole2 h' p"
      by simp_all
    have ms: "mset (?h1[c := x]) = mset (h[pos := x])"
      using cp less.prems(2) by (simp add: mset_update nth_list_update)
    have h2: "hole2 ?h1 c" if H: "hole2 h pos"
      unfolding hole2_def
    proof (intro conjI allI impI)
      show "c < length ?h1" by (rule cl)
    next
      fix i assume i: "i < length ?h1" "0 < i \<and> i \<noteq> c \<and> (i - 1) div 2 \<noteq> c"
      then have il: "i < length h" by simp
      have jl: "(i - 1) div 2 < length h" using il by auto
      show "key (?h1 ! ((i - 1) div 2)) \<le> key (?h1 ! i)"
      proof (cases "i = pos")
        case True
        with i(2) have "0 < pos" by simp
        with H cp(1,2,4) have "key (h ! ((pos - 1) div 2)) \<le> key (h ! c)"
          by (simp add: hole2_def)
        moreover have "(pos - 1) div 2 \<noteq> pos" using parent_less[OF \<open>0 < pos\<close>] by simp
        ultimately show ?thesis using True il by simp
      next
        case np: False
        show ?thesis
        proof (cases "(i - 1) div 2 = pos")
          case True
          from cp(5)[OF il _ True] i(2) have "key (h ! c) \<le> key (h ! i)" by simp
          with True np il less.prems(2) show ?thesis by simp
        next
          case False
          with H il i(2) np have "key (h ! ((i - 1) div 2)) \<le> key (h ! i)"
            by (simp add: hole2_def)
          with False np show ?thesis by simp
        qed
      qed
    next
      fix d assume d: "d < length ?h1" "0 < c \<and> 0 < d \<and> (d - 1) div 2 = c"
      then have dl: "d < length h" by simp
      from d(2) cp(3) have dn: "d \<noteq> pos" "(d - 1) div 2 \<noteq> pos"
        using parent_less[of d] by auto
      with H dl d(2) have "key (h ! c) \<le> key (h ! d)"
        by (auto simp: hole2_def)
      then show "key (?h1 ! ((c - 1) div 2)) \<le> key (?h1 ! d)"
        using cp(2) dn less.prems(2) by simp
    qed
    from ih ms h2 cp(3) show ?thesis by auto
  qed
qed


lemma set_update_nth_subset: "i < length h \<Longrightarrow> set (h[j := h ! i]) \<subseteq> set h"
  using set_update_subset_insert[of h j "h ! i"] nth_mem[of i h] by auto

lemma heappop_props:
  assumes "heappop h = Inr (x, h')" "h \<noteq> []"
  shows "x = h ! 0" "mset h = add_mset x (mset h')" "heap_inv h \<Longrightarrow> heap_inv h'"
proof -
  from assms(2) obtain b l where hb: "h = b @ [l]" by (cases h rule: rev_cases) auto
  then have bb: "butlast h = b" "last h = l" by simp_all
  have "x = h ! 0 \<and> mset h = add_mset x (mset h') \<and> (heap_inv h \<longrightarrow> heap_inv h')"
  proof (cases "b = []")
    case True
    with assms(1) bb have "x = l" "h' = []" by (auto simp: heappop_def Let_def)
    with True hb show ?thesis by (simp add: heap_inv_def)
  next
    case False
    let ?h0 = "b[0 := l]"
    from False have bl: "0 < length b" by simp
    from assms(1) False bb have x: "x = b ! 0" and s: "siftup ?h0 0 = Inr h'"
      by (auto simp: heappop_def Let_def split: sum.splits)
    from x bl hb have x0: "x = h ! 0" by (simp add: nth_append)
    from s bl obtain h1 p where l: "siftup_loop ?h0 0 = Inr (h1, p)"
      and d0: "siftdown_loop (h1[p := l]) 0 p (h1[p := l] ! p) = Inr h'"
      by (auto simp: siftup_def siftdown_def Let_def split: sum.splits)
    have l0: "0 < length ?h0" using bl by simp
    from siftup_loop_props[OF l l0, of l]
    have pr: "length h1 = length ?h0" "p < length ?h0" "\<not> 2 * p + 1 < length ?h0"
      "mset (h1[p := l]) = mset (?h0[0 := l])" "hole2 ?h0 0 \<longrightarrow> hole2 h1 p"
      by simp_all
    from d0 pr have d: "siftdown_loop (h1[p := l]) 0 p l = Inr h'" by simp
    have pl: "p < length (h1[p := l])" using pr by simp
    from siftdown_loop_mset[OF d pl] pr(4)
    have "mset h' = mset ?h0" by simp
    also have "\<dots> = add_mset l (mset b - {#b ! 0#})"
      using bl by (simp add: mset_update)
    finally have "add_mset x (mset h') = add_mset l (mset b)"
      using x bl by simp
    with hb have ms: "mset h = add_mset x (mset h')" by simp
    have hp: "heap_inv h'" if H: "heap_inv h"
    proof -
      have "hole2 ?h0 0"
        unfolding hole2_def
      proof (intro conjI allI impI)
        fix i assume i: "i < length ?h0" "0 < i \<and> i \<noteq> 0 \<and> (i - 1) div 2 \<noteq> 0"
        then have il: "i < length b" by simp
        then have "i < length h" "b ! i = h ! i" "b ! ((i - 1) div 2) = h ! ((i - 1) div 2)"
          using hb by (auto simp: nth_append)
        with H i(2) have "key (b ! ((i - 1) div 2)) \<le> key (b ! i)"
          by (simp add: heap_inv_def)
        with i(2) show "key (?h0 ! ((i - 1) div 2)) \<le> key (?h0 ! i)" by simp
      next
        show "0 < length ?h0" by (rule l0)
      qed simp
      with pr(5) have h2: "hole2 h1 p" by simp
      have "hole_inv (h1[p := l]) p l"
        unfolding hole_inv_def
      proof (intro conjI allI impI)
        fix i assume i: "i < length (h1[p := l])" "0 < i \<and> i \<noteq> p"
        then have il: "i < length h1" by simp
        have np: "(i - 1) div 2 \<noteq> p" using pr(1,3) il i(2) by auto
        from h2 il i(2) np have "key (h1 ! ((i - 1) div 2)) \<le> key (h1 ! i)"
          by (simp add: hole2_def)
        with np i(2) show "key (h1[p := l, p := l] ! ((i - 1) div 2)) \<le> key (h1[p := l, p := l] ! i)"
          by simp
      next
        fix c assume c: "c < length (h1[p := l])" "0 < p \<and> 0 < c \<and> (c - 1) div 2 = p"
        then have False using pr(1,3) by auto
        then show "key (h1[p := l] ! ((p - 1) div 2)) \<le> key (h1[p := l] ! c)" ..
      next
        show "p < length (h1[p := l])" by (rule pl)
      qed
      from siftdown_loop_heap[OF d this] show ?thesis .
    qed
    from x0 ms hp show ?thesis by simp
  qed
  then show "x = h ! 0" "mset h = add_mset x (mset h')" "heap_inv h \<Longrightarrow> heap_inv h'"
    by simp_all
qed

definition comparable :: "item set \<Rightarrow> bool" where
  "comparable S = (\<forall>a\<in>S. \<forall>b\<in>S. key a \<noteq> key b \<or> a = b)"

lemma comparable_subset: "S \<subseteq> T \<Longrightarrow> comparable T \<Longrightarrow> comparable S"
  unfolding comparable_def by blast

lemma siftdown_loop_total:
  "comparable (insert x (set h)) \<Longrightarrow> pos < length h \<Longrightarrow> \<exists>h'. siftdown_loop h s pos x = Inr h'"
proof (induction pos arbitrary: h rule: less_induct)
  case (less pos)
  show ?case
  proof (cases "s < pos")
    case False
    then show ?thesis by (simp add: siftdown_loop_stop)
  next
    case True
    let ?pp = "(pos - 1) div 2"
    from True less.prems(2) have pp: "?pp < pos" "?pp < length h" by auto
    then have "h ! ?pp \<in> set h" by simp
    with less.prems(1) have lt: "item_lt x (h ! ?pp) = Inr (key x < key (h ! ?pp))"
      by (intro item_lt_total) (auto simp: comparable_def)
    have "set (h[pos := h ! ?pp]) \<subseteq> set h"
      using pp by (intro set_update_nth_subset)
    then have "insert x (set (h[pos := h ! ?pp])) \<subseteq> insert x (set h)" by auto
    from comparable_subset[OF this less.prems(1)]
    have c: "comparable (insert x (set (h[pos := h ! ?pp])))" .
    from less.IH[OF pp(1) c] pp obtain h' where
      "siftdown_loop (h[pos := h ! ?pp]) s ?pp x = Inr h'" by auto
    with True lt show ?thesis by (simp add: siftdown_loop_step)
  qed
qed

lemma siftup_loop_total:
  "comparable (set h) \<Longrightarrow> pos < length h \<Longrightarrow> \<exists>r. siftup_loop h pos = Inr r"
proof (induction "length h - pos" arbitrary: h pos rule: less_induct)
  case less
  show ?case
  proof (cases "2 * pos + 1 < length h")
    case False
    then show ?thesis by (subst siftup_loop_unfold) simp
  next
    case True
    have "\<exists>c. child_of h pos = Inr c"
    proof (cases "2 * pos + 2 < length h")
      case False then show ?thesis by (simp add: child_of_def)
    next
      case t: True
      with True have "h ! (2 * pos + 1) \<in> set h" "h ! (2 * pos + 2) \<in> set h"
        by (auto intro: nth_mem)
      with less.prems(1) have "item_lt (h ! (2 * pos + 1)) (h ! (2 * pos + 2))
          = Inr (key (h ! (2 * pos + 1)) < key (h ! (2 * pos + 2)))"
        by (intro item_lt_total) (auto simp: comparable_def)
      with t show ?thesis by (simp add: child_of_def)
    qed
    then obtain c where c: "child_of h pos = Inr c" by blast
    note cp = child_of_props[OF c True]
    let ?h1 = "h[pos := h ! c]"
    have m: "length ?h1 - c < length h - pos" using cp less.prems(2) by simp
    have "set ?h1 \<subseteq> set h"
      using cp by (intro set_update_nth_subset)
    from comparable_subset[OF this less.prems(1)] have cm: "comparable (set ?h1)" .
    from less.hyps[OF m cm] cp obtain r where "siftup_loop ?h1 c = Inr r" by auto
    with True c show ?thesis by (subst siftup_loop_unfold) simp
  qed
qed

lemma heappush_total:
  "comparable (insert x (set h)) \<Longrightarrow> \<exists>h'. heappush h x = Inr h'"
  unfolding heappush_def siftdown_def
  by (simp add: siftdown_loop_total)

lemma heappop_total:
  assumes "comparable (set h)" "h \<noteq> []"
  shows "\<exists>r. heappop h = Inr r"
proof -
  from assms(2) obtain b l where hb: "h = b @ [l]" by (cases h rule: rev_cases) auto
  then have bb: "butlast h = b" "last h = l" by simp_all
  show ?thesis
  proof (cases "b = []")
    case True
    with bb have "heappop h = Inr (l, [])" by (simp add: heappop_def Let_def)
    then show ?thesis by (rule exI)
  next
    case False
    let ?h0 = "b[0 := l]"
    have sub: "set ?h0 \<subseteq> set h"
      using set_update_subset_insert[of b 0 l] hb by auto
    from comparable_subset[OF this assms(1)] have c0: "comparable (set ?h0)" .
    from False have l0: "0 < length ?h0" by simp
    from siftup_loop_total[OF c0 l0] obtain r where "siftup_loop ?h0 0 = Inr r" by blast
    then obtain h1 p where l: "siftup_loop ?h0 0 = Inr (h1, p)" by (cases r) simp
    from siftup_loop_props[OF l l0, of l]
    have pr: "length h1 = length ?h0" "p < length ?h0" "mset (h1[p := l]) = mset (?h0[0 := l])"
      by simp_all
    have "set (h1[p := l]) = set ?h0"
      using mset_eq_setD[OF pr(3)] by simp
    with sub hb have "insert l (set (h1[p := l])) \<subseteq> set h" by auto
    from comparable_subset[OF this assms(1)]
    have c1: "comparable (insert l (set (h1[p := l])))" .
    have pl: "p < length (h1[p := l])" using pr by simp
    from siftdown_loop_total[OF c1 pl, of 0] obtain h' where
      "siftdown_loop (h1[p := l]) 0 p l = Inr h'" by blast
    moreover have "?h0 ! 0 = l" using l0 by simp
    moreover have "h1[p := l] ! p = l" using pr(1,2) by simp
    ultimately have "heappop h = Inr (b ! 0, h')" using False l bb
      by (simp add: heappop_def Let_def siftup_def siftdown_def)
    then show ?thesis by (rule exI)
  qed
qed



subsection \<open>The fetcher object\<close>

text \<open>
  A future is pending, holds a result, or was cancelled; \<open>Future.done()\<close> is true in
  the last two states. The store maps a reference to the future object behind it: its
  state, its attribute \<open>item\<close> (set by \<open>fetch_blocks\<close>), and the set \<open>peers_tried\<close>
  that its item shares. The fields of the fetcher are the heap list of
  \<open>_block_hash_priority_queue\<close>, the weak registry \<open>_futures\<close>, the store, and the next
  unused reference. \<open>_get_batch_lock\<close> belongs to the task model further down.
\<close>

datatype 'b fut_state = Pending | Finished 'b | Cancelled

record 'b future =
  f_state :: "'b fut_state"
  f_item :: item
  f_peers_tried :: "peer_id set"

definition fut_done :: "'b future \<Rightarrow> bool" where
  "fut_done f = (f_state f \<noteq> Pending)"

record 'b blockfetcher =
  queue :: "item list"
  futures :: "bytes \<rightharpoonup> fid"
  store :: "fid \<Rightarrow> 'b future"
  next_fid :: fid

definition new_future :: "item \<Rightarrow> 'b future" where
  "new_future it = \<lparr>f_state = Pending, f_item = it, f_peers_tried = {}\<rparr>"

definition init_fetcher :: "'b blockfetcher" where
  "init_fetcher = \<lparr>queue = [], futures = Map.empty,
     store = (\<lambda>f. new_future (0, [], f)), next_fid = 0\<rparr>"

definition fid_of :: "item \<Rightarrow> fid" where
  "fid_of it = snd (snd it)"

text \<open>
  \<open>fetch_blocks\<close>: one future per pair, in input order. \<open>put_nowait\<close> is \<open>heappush\<close>
  (the queue is unbounded); an exception of it ends the call.
\<close>

fun fetch_blocks_loop ::
  "(bytes \<times> int) list \<Rightarrow> fid list \<Rightarrow> 'b blockfetcher \<Rightarrow> error + fid list \<times> 'b blockfetcher" where
  "fetch_blocks_loop [] r st = Inr (r, st)"
| "fetch_blocks_loop ((bh, pri) # rest) r st =
     (let f = next_fid st;
          it = (pri, bh, f)
      in case heappush (queue st) it of
           Inl e \<Rightarrow> Inl e
         | Inr q \<Rightarrow>
             fetch_blocks_loop rest (r @ [f])
               (st\<lparr>queue := q, store := (store st)(f := new_future it), next_fid := Suc f,
                   futures := (futures st)(bh \<mapsto> f)\<rparr>))"

definition fetch_blocks ::
  "(bytes \<times> int) list \<Rightarrow> 'b blockfetcher \<Rightarrow> error + fid list \<times> 'b blockfetcher" where
  "fetch_blocks block_hash_priority_pair_list st =
     fetch_blocks_loop block_hash_priority_pair_list [] st"

text \<open>
  \<open>handle_msg(name, data)\<close>. \<open>data\<close> is a dictionary; only its entry \<open>"block"\<close> is
  read, and \<open>None.hash()\<close> raises \<open>AttributeError\<close> when it is missing. \<open>Block.hash\<close>
  (of the pycoin library) is the parameter \<open>block_hash\<close>.
\<close>

definition str_block :: pystr where
  "str_block = [98, 108, 111, 99, 107]"

definition handle_msg ::
  "('b \<Rightarrow> bytes) \<Rightarrow> pystr \<Rightarrow> (pystr \<rightharpoonup> 'b) \<Rightarrow> 'b blockfetcher \<Rightarrow> error + 'b blockfetcher" where
  "handle_msg block_hash name data st =
     (if name = str_block then
        (case data str_block of
           None \<Rightarrow> Inl AttributeError
         | Some block \<Rightarrow>
             (let bh = block_hash block
              in case futures st bh of
                   None \<Rightarrow> Inr st
                 | Some f \<Rightarrow>
                     if \<not> fut_done (store st f)
                     then Inr (st\<lparr>store := (store st)(f := (store st f)\<lparr>f_state := Finished block\<rparr>)\<rparr>)
                     else Inr st))
      else Inr st)"

subsection \<open>Claiming a batch\<close>

text \<open>
  Modelled from the spec: \<open>ITEM_TYPE_BLOCK\<close> of \<open>pycoinnet.msg.InvItem\<close>, which is not
  among the sources; the spec gives \<open>InvItem(ITEM_TYPE_BLOCK = 2, hash)\<close>. An
  \<open>InvItem\<close> is the pair of its type and its hash.
\<close>

definition ITEM_TYPE_BLOCK :: nat where
  "ITEM_TYPE_BLOCK = 2"

record claim_locals =
  skipped :: "item list"
  inv_items :: "(nat \<times> bytes) list"
  c_futures :: "fid list"

definition no_locals :: claim_locals where
  "no_locals = \<lparr>skipped = [], inv_items = [], c_futures = []\<rparr>"

lemma heappop_shorter:
  "heappop h = Inr (x, h') \<Longrightarrow> h \<noteq> [] \<Longrightarrow> length h' < length h"
  using heappop_props(2)[of h x h'] by (metis lessI size_add_mset size_mset)

text \<open>
  The \<open>while\<close> loop of \<open>_get_batch\<close>, from given values of its local variables. It
  returns \<open>True\<close> with the locals and the fetcher when the loop is left, and \<open>False\<close>
  with them when \<open>Queue.get\<close> has to wait on an empty queue: the coroutine is then
  suspended inside the lock, and goes on from these locals once the queue holds an item.
\<close>

function claim_loop ::
  "nat \<Rightarrow> peer_id \<Rightarrow> claim_locals \<Rightarrow> 'b blockfetcher
     \<Rightarrow> error + bool \<times> claim_locals \<times> 'b blockfetcher" where
  "claim_loop batch_size peer l st =
     (if length (c_futures l) < batch_size then
        (if queue st = [] \<and> length (c_futures l) > 0 then Inr (True, l, st)
         else if queue st = [] then Inr (False, l, st)
         else case heappop (queue st) of
           Inl e \<Rightarrow> Inl e
         | Inr (it, q) \<Rightarrow>
             (let st1 = st\<lparr>queue := q\<rparr>;
                  block_hash = fst (snd it);
                  block_future = fid_of it
              in if fut_done (store st1 block_future) then claim_loop batch_size peer l st1
                 else if peer \<in> f_peers_tried (store st1 block_future)
                 then claim_loop batch_size peer (l\<lparr>skipped := skipped l @ [it]\<rparr>) st1
                 else claim_loop batch_size peer
                        (l\<lparr>inv_items := inv_items l @ [(ITEM_TYPE_BLOCK, block_hash)],
                           c_futures := c_futures l @ [block_future]\<rparr>)
                        (st1\<lparr>store := (store st1)(block_future :=
                               (store st1 block_future)
                                 \<lparr>f_peers_tried :=
                                     insert peer (f_peers_tried (store st1 block_future))\<rparr>)\<rparr>)))
      else Inr (True, l, st))"
  by pat_completeness auto
termination
  by (relation "measure (\<lambda>(batch_size, peer, l, st). length (queue st))")
     (auto dest: heappop_shorter)

declare claim_loop.simps [simp del]






text \<open>
  The \<open>for\<close> loop of \<open>_fetcher_loop\<close> after \<open>asyncio.wait\<close>: a future of \<open>batch_1\<close>
  that is not done has its item put back on the queue, a done one is counted.
\<close>

fun requeue_unfinished ::
  "fid list \<Rightarrow> nat \<Rightarrow> 'b blockfetcher \<Rightarrow> error + nat \<times> 'b blockfetcher" where
  "requeue_unfinished [] item_count st = Inr (item_count, st)"
| "requeue_unfinished (f # fs) item_count st =
     (if \<not> fut_done (store st f) then
        (case heappush (queue st) (f_item (store st f)) of
           Inl e \<Rightarrow> Inl e
         | Inr q \<Rightarrow> requeue_unfinished fs item_count (st\<lparr>queue := q\<rparr>))
      else requeue_unfinished fs (item_count + 1) st)"

subsection \<open>Properties of the claim loop\<close>


text \<open>
  The two effects of claiming an item for a peer: on the locals of \<open>_get_batch\<close>
  and on the store (\<open>peers_tried.add(peer)\<close>).
\<close>

definition claim_item :: "peer_id \<Rightarrow> item \<Rightarrow> claim_locals \<Rightarrow> claim_locals" where
  "claim_item p it l = l\<lparr>inv_items := inv_items l @ [(ITEM_TYPE_BLOCK, fst (snd it))],
                         c_futures := c_futures l @ [fid_of it]\<rparr>"

definition add_tried :: "peer_id \<Rightarrow> fid \<Rightarrow> 'b blockfetcher \<Rightarrow> 'b blockfetcher" where
  "add_tried p f st = st\<lparr>store := (store st)(f :=
       (store st f)\<lparr>f_peers_tried := insert p (f_peers_tried (store st f))\<rparr>)\<rparr>"



lemma claim_loop_exit:
  "claim_loop n p l st = Inr (fin, l', st') \<Longrightarrow>
     (fin \<longrightarrow> n \<le> length (c_futures l') \<or> (queue st' = [] \<and> c_futures l' \<noteq> []))
     \<and> (\<not> fin \<longrightarrow> queue st' = [] \<and> c_futures l' = [] \<and> 0 < n)"
proof (induction "length (queue st)" arbitrary: l st rule: less_induct)
  case less
  show ?case
  proof (cases "length (c_futures l) < n \<and> queue st \<noteq> []")
    case False
    with less.prems show ?thesis
      by (subst (asm) claim_loop.simps) (auto split: if_splits)
  next
    case True
    with less.prems(1) obtain it q where pop: "heappop (queue st) = Inr (it, q)"
      by (subst (asm) claim_loop.simps) (auto split: sum.splits)
    from True have t: "length (c_futures l) < n" "queue st \<noteq> []" by auto
    from heappop_shorter[OF pop t(2)] have sh: "length q < length (queue st)" .
    from less.prems(1) pop True obtain l1 st1 where
      r: "claim_loop n p l1 st1 = Inr (fin, l', st')" and q1: "queue st1 = q"
      by (subst (asm) claim_loop.simps) (auto simp: Let_def split: if_splits)
    from sh q1 have "length (queue st1) < length (queue st)" by simp
    from less.hyps[OF this r] show ?thesis .
  qed
qed

lemma claim_loop_total:
  "comparable (set (queue st)) \<Longrightarrow> \<exists>r. claim_loop n p l st = Inr r"
proof (induction "length (queue st)" arbitrary: l st rule: less_induct)
  case less
  show ?case
  proof (cases "length (c_futures l) < n \<and> queue st \<noteq> []")
    case False
    then show ?thesis by (subst claim_loop.simps) auto
  next
    case True
    then have t: "length (c_futures l) < n" "queue st \<noteq> []" by auto
    from heappop_total[OF less.prems t(2)] obtain it q where
      pop: "heappop (queue st) = Inr (it, q)" by fastforce
    from heappop_shorter[OF pop t(2)] have sh: "length q < length (queue st)" .
    from heappop_props(2)[OF pop t(2)] have "set q \<subseteq> set (queue st)"
      by (metis mset_subset_eq_add_mset_cancel set_mset_mono set_mset_mset subset_mset.order_refl mset_subset_eq_add_left add_mset_add_single)
    from comparable_subset[OF this less.prems] have c: "comparable (set q)" .
    have a: "\<exists>r. claim_loop n p l1 (st1\<lparr>queue := q\<rparr>) = Inr r" for l1 and st1 :: "'a blockfetcher"
      using less.hyps[of "st1\<lparr>queue := q\<rparr>" l1] sh c by simp
    have b: "\<exists>r. claim_loop n p (claim_item p it l) (add_tried p (fid_of it) (st\<lparr>queue := q\<rparr>)) = Inr r"
      using less.hyps[of "add_tried p (fid_of it) (st\<lparr>queue := q\<rparr>)" "claim_item p it l"] sh c
      by (simp add: add_tried_def)
    show ?thesis
      using t pop a[of l st] a[of "l\<lparr>skipped := skipped l @ [it]\<rparr>" st] b
      by (subst claim_loop.simps) (simp add: Let_def claim_item_def add_tried_def)
  qed
qed


subsection \<open>Properties of fetch_blocks\<close>


text \<open>
  \<open>new_items pairs n\<close> are the items \<open>fetch_blocks\<close> builds for its pairs when the
  next unused reference is \<open>n\<close>. \<open>items_ok\<close> says that every queued item is the
  attribute \<open>item\<close> of its own future, and that every future made so far holds an
  item that refers back to it (\<open>f.item[2] is f\<close>).
\<close>

fun new_items :: "(bytes \<times> int) list \<Rightarrow> fid \<Rightarrow> item list" where
  "new_items [] n = []"
| "new_items ((bh, pri) # rest) n = (pri, bh, n) # new_items rest (Suc n)"


lemma distinct_keys_comparable: "distinct (map key its) \<Longrightarrow> comparable (set its)"
  unfolding comparable_def by (metis distinct_map inj_onD)

lemma length_new_items [simp]: "length (new_items pairs n) = length pairs"
  by (induction pairs n rule: new_items.induct) auto


lemma hash_new_items:
  "it \<in> set (new_items pairs n) \<Longrightarrow> fst (snd it) \<in> fst ` set pairs"
  by (induction pairs n rule: new_items.induct) auto


lemma fetch_blocks_loop_total:
  "comparable (set (queue st) \<union> set (new_items pairs (next_fid st))) \<Longrightarrow>
     \<exists>res. fetch_blocks_loop pairs r st = Inr res"
proof (induction pairs r st rule: fetch_blocks_loop.induct)
  case (1 r st)
  then show ?case by simp
next
  case (2 bh pri rest r st)
  let ?f = "next_fid st"
  have "insert (pri, bh, ?f) (set (queue st))
      \<subseteq> set (queue st) \<union> set (new_items ((bh, pri) # rest) ?f)" by auto
  from heappush_total[OF comparable_subset[OF this "2.prems"]]
  obtain q where q: "heappush (queue st) (pri, bh, ?f) = Inr q" by blast
  let ?st1 = "st\<lparr>queue := q, store := (store st)(?f := new_future (pri, bh, ?f)),
      next_fid := Suc ?f, futures := (futures st)(bh \<mapsto> ?f)\<rparr>"
  have "set q = insert (pri, bh, ?f) (set (queue st))"
    using arg_cong[OF heappush_mset[OF q], of set_mset] by simp
  then have "set (queue ?st1) \<union> set (new_items rest (next_fid ?st1))
      \<subseteq> set (queue st) \<union> set (new_items ((bh, pri) # rest) ?f)" by auto
  from "2.IH"[OF refl refl q comparable_subset[OF this "2.prems"]] q
  show ?case by (simp add: Let_def)
qed


subsection \<open>Properties of handle_msg\<close>


text \<open>
  Claim C9 (\<open>handle_msg\<close>). A message whose name is not \<open>"block"\<close> leaves the
  fetcher as it is. For a \<open>"block"\<close> message carrying the block \<open>b\<close>: when no future
  is registered under the hash of \<open>b\<close>, or the registered future is already done
  (resolved or cancelled), the fetcher is left as it is; when a future that is not
  done is registered there, it is resolved with \<open>b\<close>, and nothing else changes (its
  item and \<open>peers_tried\<close>, every other future, the queue, the registry).
\<close>

theorem handle_msg_behaviour:
  "(name \<noteq> str_block \<longrightarrow> handle_msg bhash name data st = Inr st)
   \<and> (data str_block = Some b \<and> futures st (bhash b) = None \<longrightarrow>
        handle_msg bhash str_block data st = Inr st)
   \<and> (data str_block = Some b \<and> futures st (bhash b) = Some f \<and> fut_done (store st f) \<longrightarrow>
        handle_msg bhash str_block data st = Inr st)
   \<and> (data str_block = Some b \<and> futures st (bhash b) = Some f \<and> \<not> fut_done (store st f) \<longrightarrow>
        (\<exists>st'. handle_msg bhash str_block data st = Inr st'
           \<and> f_state (store st' f) = Finished b
           \<and> fut_done (store st' f)
           \<and> f_item (store st' f) = f_item (store st f)
           \<and> f_peers_tried (store st' f) = f_peers_tried (store st f)
           \<and> (\<forall>g. g \<noteq> f \<longrightarrow> store st' g = store st g)
           \<and> queue st' = queue st \<and> futures st' = futures st \<and> next_fid st' = next_fid st))"
  by (simp add: handle_msg_def Let_def fut_done_def)

text \<open>
  Concrete fetchers: \<open>ex_hash b\<close> is a 32-byte hash; \<open>ex_one\<close> is the fetcher after
  \<open>fetch_blocks([(ex_hash 1, 0)])\<close>. In the examples a block is its own hash.
\<close>

definition ex_hash :: "byte \<Rightarrow> bytes" where
  "ex_hash b = [b, 0, 0, 0, 0, 0, 0, 0, 0, 0, 0, 0, 0, 0, 0, 0,
                0, 0, 0, 0, 0, 0, 0, 0, 0, 0, 0, 0, 0, 0, 0, 0]"

definition ex_one :: "bytes blockfetcher" where
  "ex_one = \<lparr>queue = [(0, ex_hash 1, 0)], futures = [ex_hash 1 \<mapsto> 0],
     store = (\<lambda>f. new_future (0, if f = 0 then ex_hash 1 else [], f)), next_fid = 1\<rparr>"

theorem handle_msg_behaviour_witness:
  "handle_msg (\<lambda>b. b) [105, 110, 118] [str_block \<mapsto> ex_hash 1] ex_one = Inr ex_one
   \<and> handle_msg (\<lambda>b. b) str_block [str_block \<mapsto> ex_hash 2] ex_one = Inr ex_one
   \<and> handle_msg (\<lambda>b. b) str_block [str_block \<mapsto> ex_hash 1] ex_one
       = Inr (ex_one\<lparr>store := (store ex_one)(0 := (store ex_one 0)\<lparr>f_state := Finished (ex_hash 1)\<rparr>)\<rparr>)
   \<and> handle_msg (\<lambda>b. b) str_block [str_block \<mapsto> ex_hash 1]
         (ex_one\<lparr>store := (store ex_one)(0 := (store ex_one 0)\<lparr>f_state := Cancelled\<rparr>)\<rparr>)
       = Inr (ex_one\<lparr>store := (store ex_one)(0 := (store ex_one 0)\<lparr>f_state := Cancelled\<rparr>)\<rparr>)"
  using handle_msg_behaviour [of "[105, 110, 118]" "\<lambda>b. b" "[str_block \<mapsto> ex_hash 1]" ex_one "ex_hash 1" 0]
    handle_msg_behaviour [of str_block "\<lambda>b. b" "[str_block \<mapsto> ex_hash 2]" ex_one "ex_hash 2" 0]
    handle_msg_behaviour [of str_block "\<lambda>b. b" "[str_block \<mapsto> ex_hash 1]"
       "ex_one\<lparr>store := (store ex_one)(0 := (store ex_one 0)\<lparr>f_state := Cancelled\<rparr>)\<rparr>" "ex_hash 1" 0]
  by (simp add: handle_msg_def Let_def fut_done_def ex_one_def ex_hash_def str_block_def new_future_def)


subsection \<open>Comparisons that raise\<close>


lemma siftdown_loop_0: "siftdown_loop h s 0 x = Inr (h[0 := x])"
  by (simp add: siftdown_loop_stop)

lemma heappush_Nil: "heappush [] x = Inr [x]"
  by (simp add: heappush_def siftdown_def siftdown_loop_0)

lemma heappush_same_key_raises:
  "f \<noteq> g \<Longrightarrow> heappush [(pri, h, f)] (pri, h, g) = Inl TypeError"
  by (simp add: heappush_def siftdown_def siftdown_loop_step item_lt_def)

text \<open>
  Claim C8 (postcondition of \<open>fetch_blocks\<close>) at an input with a duplicate hash of
  equal priority: the second \<open>put_nowait\<close> compares the two items, which agree in
  priority and hash, reaches the futures and raises \<open>TypeError\<close>; no list of futures
  is returned.
\<close>

theorem fetch_blocks_duplicate_raises:
  "fetch_blocks [(ex_hash 1, 0), (ex_hash 1, 0)] (init_fetcher :: bytes blockfetcher) = Inl TypeError"
  by (simp add: fetch_blocks_def init_fetcher_def Let_def heappush_Nil heappush_same_key_raises)

text \<open>
  Claim C10 (the order of the queue is partial). Two requests with the same priority
  and hash cannot be ordered: pushing the second while the first is the only queued
  item raises \<open>TypeError\<close>, inside \<open>fetch_blocks\<close> too. Two items that differ in
  priority or hash are ordered by these alone, without comparing futures. When the
  \<open>(priority, hash)\<close> pairs of the queued and the new items are pairwise distinct,
  \<open>fetch_blocks\<close>, \<open>heappush\<close>, \<open>heappop\<close> and the claim loop of \<open>_get_batch\<close>
  raise nothing.
\<close>

theorem queue_order_partial:
  "fetch_blocks [(h, pri), (h, pri)] init_fetcher = (Inl TypeError :: error + fid list \<times> 'b blockfetcher)
   \<and> (f \<noteq> g \<longrightarrow> heappush [(pri, h, f)] (pri, h, g) = Inl TypeError)
   \<and> (key a \<noteq> key b \<longrightarrow> item_lt a b = Inr (key a < key b))
   \<and> (distinct (map key (queue st @ new_items pairs (next_fid st))) \<longrightarrow>
        (\<exists>res. fetch_blocks pairs (st :: 'b blockfetcher) = Inr res))
   \<and> (distinct (map key (x # hp)) \<longrightarrow>
        (\<exists>hp'. heappush hp x = Inr hp') \<and> (\<exists>res. heappop (x # hp) = Inr res))
   \<and> (distinct (map key (queue st)) \<longrightarrow> (\<exists>res. claim_loop n p l st = Inr res))"
proof (intro conjI impI)
  show "fetch_blocks [(h, pri), (h, pri)] init_fetcher = (Inl TypeError :: error + fid list \<times> 'b blockfetcher)"
    by (simp add: fetch_blocks_def init_fetcher_def Let_def heappush_Nil heappush_same_key_raises)
  show "heappush [(pri, h, f)] (pri, h, g) = Inl TypeError" if "f \<noteq> g"
    using that by (rule heappush_same_key_raises)
  show "item_lt a b = Inr (key a < key b)" if "key a \<noteq> key b"
    using that by (simp add: item_lt_total)
  show "\<exists>res. fetch_blocks pairs st = Inr res"
    if "distinct (map key (queue st @ new_items pairs (next_fid st)))"
    using fetch_blocks_loop_total[of st pairs "[]"] distinct_keys_comparable[OF that]
    by (simp add: fetch_blocks_def)
  show "\<exists>hp'. heappush hp x = Inr hp'" if "distinct (map key (x # hp))"
    using heappush_total[of x hp] distinct_keys_comparable[OF that] by simp
  show "\<exists>res. heappop (x # hp) = Inr res" if "distinct (map key (x # hp))"
    using heappop_total[of "x # hp"] distinct_keys_comparable[OF that] by simp
  show "\<exists>res. claim_loop n p l st = Inr res" if "distinct (map key (queue st))"
    using claim_loop_total[of st n p l] distinct_keys_comparable[OF that] by simp
qed

theorem queue_order_partial_witness:
  "(\<exists>res. fetch_blocks [(ex_hash 1, 0), (ex_hash 2, 0)] (init_fetcher :: bytes blockfetcher) = Inr res)
   \<and> heappush [(0, ex_hash 1, 0)] (0, ex_hash 1, 1) = Inl TypeError
   \<and> item_lt (0, ex_hash 1, 0) (0, ex_hash 2, 1) = Inr True
   \<and> (\<exists>hp'. heappush [(0, ex_hash 1, 0)] (0, ex_hash 2, 1) = Inr hp')
   \<and> (\<exists>res. heappop [(0, ex_hash 2, 1), (0, ex_hash 1, 0)] = Inr res)
   \<and> (\<exists>res. claim_loop 10 7 no_locals (ex_one :: bytes blockfetcher) = Inr res)"
  using queue_order_partial [of "ex_hash 1" 0 0 1 "(0, ex_hash 1, 0)" "(0, ex_hash 2, 1)"
      "init_fetcher :: bytes blockfetcher" "[(ex_hash 1, 0), (ex_hash 2, 0)]"
      "(0, ex_hash 2, 1)" "[(0, ex_hash 1, 0)]" 10 7 no_locals]
    queue_order_partial [of "ex_hash 1" 0 0 1 "(0, ex_hash 1, 0)" "(0, ex_hash 2, 1)"
      "ex_one :: bytes blockfetcher" "[]"
      "(0, ex_hash 1, 0)" "[(0, ex_hash 2, 1)]" 10 7 no_locals]
  by (simp add: key_def init_fetcher_def ex_hash_def ex_one_def)


subsection \<open>Order and accounting of a claim\<close>














subsection \<open>The order in which requests are delivered\<close>
















section \<open>The batch size of the fetcher loop\<close>

subsection \<open>Python floats\<close>

text \<open>
  A Python \<open>float\<close> is an IEEE 754 binary64 number: a rational that the format can
  represent, an infinity, or a NaN (the sign of a zero is not kept: no operation used
  here tells the two zeros apart). \<open>to_double q\<close> rounds the rational \<open>q\<close> to the
  nearest representable number, ties to the even significand: with \<open>e\<close> the binary
  exponent of \<open>q\<close> (at least \<open>-1022\<close>, below which the numbers are subnormal), the
  representable numbers near \<open>q\<close> are the multiples of \<open>2 ^ (e - 52)\<close>, and a result
  of \<open>2 ^ 1024\<close> or more overflows to an infinity.
\<close>

datatype pyfloat = Finite rat | PosInf | NegInf | NaN

definition round_half_even :: "rat \<Rightarrow> int" where
  "round_half_even q = (let f = \<lfloor>q\<rfloor>; d = q - of_int f
     in if d < 1/2 then f else if d > 1/2 then f + 1 else if even f then f else f + 1)"

definition pow2 :: "int \<Rightarrow> rat" where
  "pow2 e = 2 powi e"

definition floor_log2 :: "rat \<Rightarrow> int" where
  "floor_log2 q = (case quotient_of q of (a, b) \<Rightarrow>
     let e0 = bitlen a - bitlen b in if pow2 e0 \<le> q then e0 else e0 - 1)"

definition to_double :: "rat \<Rightarrow> pyfloat" where
  "to_double q = (if q = 0 then Finite 0
     else let a = \<bar>q\<bar>; e = max (floor_log2 a) (- 1022); ulp = pow2 (e - 52);
              r = of_int (round_half_even (a / ulp)) * ulp
          in if pow2 1024 \<le> r then (if 0 < q then PosInf else NegInf) else Finite (sgn q * r))"

lemma pow2_pos: "0 < pow2 e"
  by (simp add: pow2_def)

lemma pow2_mono: "a \<le> b \<Longrightarrow> pow2 a \<le> pow2 b"
  by (simp add: pow2_def power_int_increasing)

lemma pow2_strict_mono: "a < b \<Longrightarrow> pow2 a < pow2 b"
  by (simp add: pow2_def power_int_strict_increasing)

lemma pow2_less_iff: "pow2 a < pow2 b \<longleftrightarrow> a < b"
  using pow2_strict_mono[of a b] pow2_mono[of b a] by (cases "a < b") auto

lemma pow2_add: "pow2 (a + b) = pow2 a * pow2 b"
  by (simp add: pow2_def power_int_add)

lemma pow2_diff: "pow2 (a - b) = pow2 a / pow2 b"
  by (simp add: pow2_def power_int_diff)

lemma pow2_nat: "pow2 (int n) = 2 ^ n"
  by (simp add: pow2_def)

lemma bitlen_pow2_bounds:
  assumes "0 < a"
  shows "pow2 (bitlen a - 1) \<le> of_int a" "of_int a < pow2 (bitlen a)"
proof -
  from assms have b1: "1 \<le> bitlen a"
    using bitlen_eq_zero_iff[of a] bitlen_nonneg[of a] by linarith
  from bitlen_bounds[OF assms] have lo: "2 ^ nat (bitlen a - 1) \<le> a" and hi: "a < 2 ^ nat (bitlen a)"
    by simp_all
  have "pow2 (bitlen a - 1) = 2 ^ nat (bitlen a - 1)"
    using b1 pow2_nat[of "nat (bitlen a - 1)"] by simp
  also have "\<dots> = of_int (2 ^ nat (bitlen a - 1))" by simp
  also have "\<dots> \<le> of_int a" using lo by (simp only: of_int_le_iff)
  finally show "pow2 (bitlen a - 1) \<le> of_int a" .
  have "pow2 (bitlen a) = 2 ^ nat (bitlen a)"
    using b1 pow2_nat[of "nat (bitlen a)"] by simp
  also have "\<dots> = of_int (2 ^ nat (bitlen a))" by simp
  finally have e: "pow2 (bitlen a) = of_int (2 ^ nat (bitlen a))" .
  show "of_int a < pow2 (bitlen a)" unfolding e using hi by (simp only: of_int_less_iff)
qed

lemma floor_log2_bounds:
  assumes "0 < q"
  shows "pow2 (floor_log2 q) \<le> q \<and> q < pow2 (floor_log2 q + 1)"
proof -
  obtain a b where ab: "quotient_of q = (a, b)" by (cases "quotient_of q")
  have bpos: "0 < b" using quotient_of_denom_pos[OF ab] .
  have q: "q = of_int a / of_int b" using quotient_of_div[OF ab] .
  have apos: "0 < a" using assms bpos unfolding q by (simp add: zero_less_divide_iff)
  define e0 where "e0 = bitlen a - bitlen b"
  note A = bitlen_pow2_bounds[OF apos] and B = bitlen_pow2_bounds[OF bpos]
  have bq: "0 < (of_int b :: rat)" using bpos by simp
  have up: "q < pow2 (e0 + 1)"
  proof -
    have "of_int a < pow2 (bitlen a)" by (rule A)
    also have "\<dots> = pow2 (e0 + 1) * pow2 (bitlen b - 1)"
      unfolding e0_def pow2_add[symmetric] by simp
    also have "\<dots> \<le> pow2 (e0 + 1) * of_int b"
      using B(1) pow2_pos[of "e0 + 1"] by (simp add: mult_left_mono)
    finally show ?thesis unfolding q using bq by (simp add: pos_divide_less_eq)
  qed
  have lo: "pow2 (e0 - 1) \<le> q"
  proof -
    have "pow2 (e0 - 1) * of_int b \<le> pow2 (e0 - 1) * pow2 (bitlen b)"
      using B(2) pow2_pos[of "e0 - 1"] by (simp add: mult_left_mono)
    also have "\<dots> = pow2 (bitlen a - 1)"
      unfolding e0_def pow2_add[symmetric] by simp
    also have "\<dots> \<le> of_int a" by (rule A)
    finally show ?thesis unfolding q using bq by (simp add: pos_le_divide_eq)
  qed
  have fl: "floor_log2 q = (if pow2 e0 \<le> q then e0 else e0 - 1)"
    unfolding floor_log2_def ab e0_def by (simp add: Let_def)
  show ?thesis
  proof (cases "pow2 e0 \<le> q")
    case True then show ?thesis using up fl by simp
  next
    case False then show ?thesis using lo fl by simp
  qed
qed

lemma floor_log2_unique:
  assumes "pow2 e \<le> q" "q < pow2 (e + 1)"
  shows "floor_log2 q = e"
proof -
  have qpos: "0 < q" using pow2_pos[of e] assms(1) by linarith
  from floor_log2_bounds[OF qpos] have b: "pow2 (floor_log2 q) \<le> q" "q < pow2 (floor_log2 q + 1)"
    by simp_all
  have "pow2 e < pow2 (floor_log2 q + 1)" using assms(1) b(2) by linarith
  hence 1: "e < floor_log2 q + 1" by (simp only: pow2_less_iff)
  have "pow2 (floor_log2 q) < pow2 (e + 1)" using assms(2) b(1) by linarith
  hence 2: "floor_log2 q < e + 1" by (simp only: pow2_less_iff)
  from 1 2 show ?thesis by linarith
qed

lemma round_half_even_bounds:
  "\<lfloor>q\<rfloor> \<le> round_half_even q" "round_half_even q \<le> \<lfloor>q\<rfloor> + 1"
  by (simp_all add: round_half_even_def Let_def)

lemma round_half_even_ge: "of_int n \<le> q \<Longrightarrow> n \<le> round_half_even q"
  using round_half_even_bounds(1)[of q] le_floor_iff[of n q] by linarith

lemma round_half_even_le: "q < of_int n \<Longrightarrow> round_half_even q \<le> n"
  using round_half_even_bounds(2)[of q] floor_less_iff[of q n] by linarith


text \<open>
  The three operations of Python that the fetcher loop uses: the conversion of an
  \<open>int\<close> operand of a float division (\<open>OverflowError\<close> when it is too large),
  \<open>float.__truediv__\<close> (\<open>ZeroDivisionError\<close> when the divisor is zero, IEEE
  otherwise), and \<open>int(x)\<close> (truncation towards zero; \<open>OverflowError\<close> on an infinity,
  \<open>ValueError\<close> on a NaN).
\<close>

definition float_of_int :: "int \<Rightarrow> error + pyfloat" where
  "float_of_int n = (case to_double (of_int n) of
     Finite r \<Rightarrow> Inr (Finite r) | _ \<Rightarrow> Inl OverflowError)"

definition float_truediv :: "pyfloat \<Rightarrow> pyfloat \<Rightarrow> error + pyfloat" where
  "float_truediv x y = (case y of
     Finite b \<Rightarrow>
       if b = 0 then Inl ZeroDivisionError
       else (case x of
           Finite a \<Rightarrow> Inr (to_double (a / b))
         | PosInf \<Rightarrow> Inr (if 0 < b then PosInf else NegInf)
         | NegInf \<Rightarrow> Inr (if 0 < b then NegInf else PosInf)
         | NaN \<Rightarrow> Inr NaN)
   | NaN \<Rightarrow> Inr NaN
   | _ \<Rightarrow> (case x of Finite a \<Rightarrow> Inr (Finite 0) | _ \<Rightarrow> Inr NaN))"

definition int_of_float :: "pyfloat \<Rightarrow> error + int" where
  "int_of_float x = (case x of
     Finite r \<Rightarrow> Inr (if 0 \<le> r then \<lfloor>r\<rfloor> else \<lceil>r\<rceil>)
   | NaN \<Rightarrow> Inl ValueError
   | _ \<Rightarrow> Inl OverflowError)"

subsection \<open>The new batch size\<close>

text \<open>
  The end of the body of the \<open>while\<close> loop of \<open>_fetcher_loop\<close>:
  \<open>if item_count == 0: item_count = 1\<close>, \<open>time_per_item = batch_time / item_count\<close>,
  \<open>batch_size = min(int(target_batch_time / time_per_item) + 1, MAX_BATCH_SIZE)\<close>.
  \<open>batch_time\<close> is the difference of two readings of the clock of the event loop, a
  finite float; \<open>target_batch_time\<close> and \<open>item_count\<close> are \<open>int\<close>s. An exception ends
  the loop of this peer.
\<close>

definition MAX_BATCH_SIZE :: int where
  "MAX_BATCH_SIZE = 500"


definition new_batch_size :: "int \<Rightarrow> rat \<Rightarrow> int \<Rightarrow> error + int" where
  "new_batch_size target_batch_time batch_time item_count =
     (let item_count = (if item_count = 0 then 1 else item_count) in
      case float_of_int item_count of Inl e \<Rightarrow> Inl e | Inr c \<Rightarrow>
      case float_truediv (Finite batch_time) c of Inl e \<Rightarrow> Inl e | Inr time_per_item \<Rightarrow>
      case float_of_int target_batch_time of Inl e \<Rightarrow> Inl e | Inr t \<Rightarrow>
      case float_truediv t time_per_item of Inl e \<Rightarrow> Inl e | Inr x \<Rightarrow>
      case int_of_float x of Inl e \<Rightarrow> Inl e | Inr n \<Rightarrow>
      Inr (min (n + 1) MAX_BATCH_SIZE))"

subsection \<open>Properties of the rounding\<close>

lemma to_double_range:
  assumes lo: "pow2 lo \<le> q" and hi: "q < pow2 hi" and l: "- 1022 \<le> lo" and h: "hi < 1024"
  shows "\<exists>r. to_double q = Finite r \<and> pow2 lo \<le> r \<and> r \<le> pow2 hi"
proof -
  have qpos: "0 < q" using pow2_pos[of lo] lo by linarith
  define e where "e = floor_log2 q"
  from floor_log2_bounds[OF qpos] have b: "pow2 e \<le> q" "q < pow2 (e + 1)"
    unfolding e_def by simp_all
  have "pow2 lo < pow2 (e + 1)" using lo b(2) by linarith
  hence le: "lo \<le> e" using pow2_less_iff[of lo "e + 1"] by simp
  have "pow2 e < pow2 hi" using hi b(1) by linarith
  hence eh: "e + 1 \<le> hi" using pow2_less_iff[of e hi] by simp
  define ulp where "ulp = pow2 (e - 52)"
  have ulp: "0 < ulp" unfolding ulp_def by (rule pow2_pos)
  define m where "m = round_half_even (q / ulp)"
  have pe: "pow2 e = 2 ^ 52 * ulp"
    using pow2_add[of 52 "e - 52"] pow2_nat[of 52] unfolding ulp_def by simp
  have pe1: "pow2 (e + 1) = 2 ^ 53 * ulp"
    using pow2_add[of 53 "e - 52"] pow2_nat[of 53] unfolding ulp_def by (simp add: add.commute)
  have "of_int (2 ^ 52) \<le> q / ulp" using b(1) ulp unfolding pe by (simp add: pos_le_divide_eq)
  hence m1: "2 ^ 52 \<le> m" unfolding m_def by (rule round_half_even_ge)
  have "q / ulp < of_int (2 ^ 53)" using b(2) ulp unfolding pe1 by (simp add: pos_divide_less_eq)
  hence m2: "m \<le> 2 ^ 53" unfolding m_def by (rule round_half_even_le)
  define r where "r = of_int m * ulp"
  have "(2 ^ 52 :: rat) = of_int (2 ^ 52)" by simp
  also have "\<dots> \<le> of_int m" using m1 by (simp only: of_int_le_iff)
  finally have "2 ^ 52 * ulp \<le> r" unfolding r_def using ulp by (simp add: mult_right_mono)
  hence r1: "pow2 e \<le> r" unfolding pe .
  have "of_int m \<le> (of_int (2 ^ 53) :: rat)" using m2 by (simp only: of_int_le_iff)
  hence "r \<le> 2 ^ 53 * ulp" unfolding r_def using ulp by (simp add: mult_right_mono)
  hence r2: "r \<le> pow2 (e + 1)" unfolding pe1 .
  have r3: "r \<le> pow2 hi" using r2 pow2_mono[OF eh] by linarith
  have emax: "max (floor_log2 q) (- 1022) = e" using le l unfolding e_def by simp
  have rlt: "r < pow2 1024" using r3 pow2_strict_mono[OF h] by linarith
  have td: "to_double q = Finite r"
    using qpos rlt unfolding to_double_def r_def m_def ulp_def emax[symmetric]
    by (simp add: Let_def)
  show ?thesis using td r1 r3 pow2_mono[OF le] by auto
qed


lemma to_double_nonneg:
  assumes "0 \<le> q"
  shows "(\<exists>r. to_double q = Finite r \<and> 0 \<le> r) \<or> to_double q = PosInf"
proof (cases "q = 0")
  case True then show ?thesis by (simp add: to_double_def)
next
  case False
  hence qpos: "0 < q" using assms by simp
  define ulp where "ulp = pow2 (max (floor_log2 \<bar>q\<bar>) (- 1022) - 52)"
  have ulp: "0 < ulp" unfolding ulp_def by (rule pow2_pos)
  have "(of_int 0 :: rat) \<le> \<bar>q\<bar> / ulp" using ulp by simp
  hence "0 \<le> round_half_even (\<bar>q\<bar> / ulp)" by (rule round_half_even_ge)
  hence "0 \<le> (of_int (round_half_even (\<bar>q\<bar> / ulp)) :: rat) * ulp" using ulp by simp
  then show ?thesis using qpos unfolding to_double_def ulp_def by (simp add: Let_def)
qed

lemma to_double_eval:
  assumes "pow2 e \<le> q" "q < pow2 (e + 1)" "- 1022 \<le> e" "e < 1023"
  shows "to_double q = Finite (of_int (round_half_even (q / pow2 (e - 52))) * pow2 (e - 52))"
proof -
  have qpos: "0 < q" using pow2_pos[of e] assms(1) by linarith
  have fl: "floor_log2 q = e" using assms(1,2) by (rule floor_log2_unique)
  have emax: "max (floor_log2 \<bar>q\<bar>) (- 1022) = e" using fl qpos assms(3) by simp
  from to_double_range[OF assms(1,2,3)] assms(4)
  obtain r where r: "to_double q = Finite r" by auto
  show ?thesis using r qpos unfolding to_double_def emax Let_def
    by (simp split: if_splits)
qed

lemma floor_numeral_div:
  "\<lfloor>(numeral a :: rat) / numeral b\<rfloor> = numeral a div numeral b"
  using floor_divide_of_int_eq[of "numeral a" "numeral b", where ?'a = rat] by simp

lemma to_double_10: "to_double 10 = Finite 10"
  using to_double_eval[of 3 10] by (simp add: pow2_def round_half_even_def Let_def floor_numeral_div)


lemma to_double_3: "to_double 3 = Finite 3"
  using to_double_eval[of 1 3] by (simp add: pow2_def round_half_even_def Let_def floor_numeral_div)



lemma to_double_0: "to_double 0 = Finite 0"
  by (simp add: to_double_def)



subsection \<open>Properties of the new batch size\<close>



lemma new_batch_size_zero_time: "new_batch_size 3 0 10 = Inl ZeroDivisionError"
  by (simp add: new_batch_size_def float_of_int_def float_truediv_def int_of_float_def
      to_double_10 to_double_3 to_double_0)

lemma float_of_int_nonneg:
  assumes "float_of_int n = Inr c" "0 \<le> n"
  shows "\<exists>r. c = Finite r \<and> 0 \<le> r"
proof -
  have "0 \<le> (of_int n :: rat)" using assms(2) by simp
  from to_double_nonneg[OF this] show ?thesis
  proof
    assume "\<exists>r. to_double (of_int n) = Finite r \<and> 0 \<le> r"
    then obtain r where td: "to_double (of_int n) = Finite r" and r: "0 \<le> r" by auto
    have "c = Finite r" using assms(1) unfolding float_of_int_def td by simp
    then show ?thesis using r by blast
  next
    assume "to_double (of_int n) = PosInf"
    then show ?thesis using assms(1) by (simp add: float_of_int_def)
  qed
qed

lemma new_batch_size_bounds:
  assumes r: "new_batch_size target_batch_time batch_time item_count = Inr s"
    and bt: "0 \<le> batch_time" and tb: "0 \<le> target_batch_time" and ic: "0 \<le> item_count"
  shows "1 \<le> s \<and> s \<le> MAX_BATCH_SIZE"
proof -
  define ic' where "ic' = (if item_count = 0 then 1 else item_count)"
  have ic': "0 \<le> ic'" using ic unfolding ic'_def by simp
  from r obtain c tpi t x n where
    c: "float_of_int ic' = Inr c" and
    tpi: "float_truediv (Finite batch_time) c = Inr tpi" and
    t: "float_of_int target_batch_time = Inr t" and
    x: "float_truediv t tpi = Inr x" and
    n: "int_of_float x = Inr n" and
    s: "s = min (n + 1) MAX_BATCH_SIZE"
    unfolding new_batch_size_def ic'_def[symmetric] Let_def
    by (auto split: sum.splits)
  from float_of_int_nonneg[OF c ic'] obtain cr where cr: "c = Finite cr" "0 \<le> cr" by auto
  from float_of_int_nonneg[OF t tb] obtain tr where tr: "t = Finite tr" "0 \<le> tr" by auto
  have cr0: "cr \<noteq> 0" using tpi cr by (auto simp: float_truediv_def)
  hence tpi_eq: "tpi = to_double (batch_time / cr)" using tpi cr by (simp add: float_truediv_def)
  have "0 \<le> batch_time / cr" using bt cr(2) by simp
  from to_double_nonneg[OF this]
  have "0 \<le> n"
  proof
    assume "\<exists>r. to_double (batch_time / cr) = Finite r \<and> 0 \<le> r"
    then obtain pr where pr: "tpi = Finite pr" "0 \<le> pr" using tpi_eq by auto
    have pr0: "pr \<noteq> 0" using x pr tr by (auto simp: float_truediv_def)
    hence x_eq: "x = to_double (tr / pr)" using x pr tr by (simp add: float_truediv_def)
    have "0 \<le> tr / pr" using tr(2) pr(2) by simp
    from to_double_nonneg[OF this] n x_eq show "0 \<le> n"
      by (auto simp: int_of_float_def)
  next
    assume "to_double (batch_time / cr) = PosInf"
    hence "x = Finite 0" using x tr tpi_eq by (simp add: float_truediv_def)
    then show "0 \<le> n" using n by (simp add: int_of_float_def)
  qed
  then show ?thesis unfolding s by (simp add: MAX_BATCH_SIZE_def)
qed

lemma float_of_int_range:
  assumes "1 \<le> n" "n < 2 ^ 10"
  shows "\<exists>r. float_of_int n = Inr (Finite r) \<and> 1 \<le> r \<and> r \<le> 2 ^ 10"
proof -
  have 1: "pow2 0 \<le> of_int n" using assms(1) by (simp add: pow2_def)
  have "(of_int n :: rat) < of_int (2 ^ 10)" using assms(2) by (simp only: of_int_less_iff)
  hence 2: "of_int n < pow2 10" by (simp add: pow2_def)
  from to_double_range[OF 1 2] show ?thesis
    by (auto simp: float_of_int_def pow2_def)
qed

lemma new_batch_size_total:
  assumes bt: "pow2 (- 500) \<le> batch_time" "batch_time < pow2 500"
    and tb: "1 \<le> target_batch_time" "target_batch_time < 2 ^ 10"
    and ic: "0 \<le> item_count" "item_count < 2 ^ 10"
  shows "\<exists>c t p x.
      float_of_int (if item_count = 0 then 1 else item_count) = Inr (Finite c)
    \<and> float_of_int target_batch_time = Inr (Finite t)
    \<and> to_double (batch_time / c) = Finite p \<and> to_double (t / p) = Finite x \<and> 0 \<le> x
    \<and> new_batch_size target_batch_time batch_time item_count
        = Inr (min (\<lfloor>x\<rfloor> + 1) MAX_BATCH_SIZE)"
proof -
  define ic' where "ic' = (if item_count = 0 then 1 else item_count)"
  have ic': "1 \<le> ic'" "ic' < 2 ^ 10" using ic unfolding ic'_def by auto
  from float_of_int_range[OF ic'] obtain c where
    c: "float_of_int ic' = Inr (Finite c)" "1 \<le> c" "c \<le> 2 ^ 10" by auto
  from float_of_int_range[OF tb] obtain t where
    t: "float_of_int target_batch_time = Inr (Finite t)" "1 \<le> t" "t \<le> 2 ^ 10" by auto
  have p10: "pow2 10 = 2 ^ 10" "pow2 0 = 1" by (simp_all add: pow2_def)
  have cpos: "0 < c" using c(2) by linarith
  have q1: "pow2 (- 510) \<le> batch_time / c"
  proof -
    have "pow2 (- 510) * c \<le> pow2 (- 510) * pow2 10"
      using c(3) pow2_pos[of "- 510"] unfolding p10 by (simp only: mult_left_mono less_imp_le)
    also have "\<dots> = pow2 (- 500)" unfolding pow2_add[symmetric] by simp
    finally show ?thesis using bt(1) cpos by (simp add: pos_le_divide_eq)
  qed
  have q2: "batch_time / c < pow2 500"
  proof -
    have "batch_time < pow2 500 * 1" using bt(2) by simp
    also have "\<dots> \<le> pow2 500 * c" using c(2) pow2_pos[of 500] by (simp only: mult_left_mono less_imp_le)
    finally show ?thesis using cpos by (simp add: pos_divide_less_eq)
  qed
  from to_double_range[OF q1 q2] obtain p where
    p: "to_double (batch_time / c) = Finite p" "pow2 (- 510) \<le> p" "p \<le> pow2 500" by auto
  have ppos: "0 < p" using p(2) pow2_pos[of "- 510"] by linarith
  have tpi: "float_truediv (Finite batch_time) (Finite c) = Inr (Finite p)"
    using cpos p(1) by (simp add: float_truediv_def)
  have q3: "pow2 (- 500) \<le> t / p"
  proof -
    have "pow2 (- 500) * p \<le> pow2 (- 500) * pow2 500"
      using p(3) pow2_pos[of "- 500"] by (simp only: mult_left_mono less_imp_le)
    also have "\<dots> = 1" unfolding pow2_add[symmetric] by (simp add: pow2_def)
    finally show ?thesis using t(2) ppos by (simp add: pos_le_divide_eq)
  qed
  have q4: "t / p < pow2 521"
  proof -
    have "t \<le> pow2 10" using t(3) unfolding p10 .
    also have "\<dots> < pow2 11" by (rule pow2_strict_mono) simp
    also have "\<dots> = pow2 521 * pow2 (- 510)" unfolding pow2_add[symmetric] by simp
    also have "\<dots> \<le> pow2 521 * p" using p(2) pow2_pos[of 521] by (simp only: mult_left_mono less_imp_le)
    finally show ?thesis using ppos by (simp add: pos_divide_less_eq)
  qed
  from to_double_range[OF q3 q4] obtain x where
    x: "to_double (t / p) = Finite x" "pow2 (- 500) \<le> x" by auto
  have x0: "0 \<le> x" using x(2) pow2_pos[of "- 500"] by linarith
  have xd: "float_truediv (Finite t) (Finite p) = Inr (Finite x)"
    using ppos x by (simp add: float_truediv_def)
  have "new_batch_size target_batch_time batch_time item_count
        = Inr (min (\<lfloor>x\<rfloor> + 1) MAX_BATCH_SIZE)"
    unfolding new_batch_size_def ic'_def[symmetric] Let_def
    using x0 by (simp add: c(1) tpi t(1) xd int_of_float_def)
  with c(1) t(1) p(1) x(1) x0 show ?thesis unfolding ic'_def by blast
qed
























end
